theory Spec2Isabelle
  imports Main "HOL-Library.Word" "HOL-Library.Multiset"
begin

section \<open>The result collector of \<open>cli.c\<close>\<close>

text \<open>
  \<open>int32_t\<close> scores are 32-bit words compared as two's complement numbers
  (\<open>\<le>s\<close>, \<open><s\<close>); \<open>size_t\<close> counters are 64-bit words, so \<open>++\<close> and \<open>--\<close> wrap.
  A \<open>char *\<close> that owns a C string is the string itself.
\<close>

type_synonym int32_t = "32 word"
type_synonym size_t = "64 word"

record fzf_tuple_t =
  str :: string
  score :: int32_t

text \<open>
  \<open>struct fzf_node_s\<close>: an item and the pointer to the next node, \<open>None\<close> for \<open>NULL\<close>.
  Every node is owned by exactly one predecessor (or by the list header), so the chain is
  a value of a recursive datatype.
\<close>

datatype fzf_node_t = Node (item: fzf_tuple_t) (next_node: "fzf_node_t option")

record fzf_linked_list_t =
  head :: "fzf_node_t option"
  len :: size_t

definition create_node :: "fzf_tuple_t \<Rightarrow> fzf_node_t" where
  "create_node it = Node it None"

definition fzf_list_create :: fzf_linked_list_t where
  "fzf_list_create = \<lparr>head = None, len = 0\<rparr>"

text \<open>
  The \<open>else\<close> branch of \<open>fzf_list_insert\<close>, started at \<open>curr\<close>: the loop advances while
  \<open>curr->next\<close> exists and has a strictly greater score than the new node, then links the
  new node between \<open>curr\<close> and \<open>curr->next\<close>. The result is the chain from \<open>curr\<close> on.
\<close>

fun scan_insert :: "fzf_node_t \<Rightarrow> fzf_node_t \<Rightarrow> fzf_node_t" where
  "scan_insert (Node it None) new_node = Node it (Some (Node (item new_node) None))"
| "scan_insert (Node it (Some nx)) new_node =
     (if score (item new_node) <s score (item nx)
      then Node it (Some (scan_insert nx new_node))
      else Node it (Some (Node (item new_node) (Some nx))))"

definition fzf_list_insert :: "fzf_linked_list_t \<Rightarrow> fzf_tuple_t \<Rightarrow> fzf_linked_list_t" where
  "fzf_list_insert list it =
     (let list1 = list\<lparr>len := len list + 1\<rparr>;
          new_node = create_node it
      in case head list1 of
           None \<Rightarrow> list1\<lparr>head := Some (Node (item new_node) None)\<rparr>
         | Some h \<Rightarrow>
             if score (item h) \<le>s score (item new_node)
             then list1\<lparr>head := Some (Node (item new_node) (Some h))\<rparr>
             else list1\<lparr>head := Some (scan_insert h new_node)\<rparr>)"

text \<open>The pairs of a chain, from its first node to its last.\<close>

fun tuples :: "fzf_node_t option \<Rightarrow> fzf_tuple_t list" where
  "tuples None = []"
| "tuples (Some (Node it nx)) = it # tuples nx"

text \<open>
  \<open>printf("%s (%d)\n", ...)\<close>: \<open>%d\<close> prints the signed value in decimal, with a minus sign
  when it is negative. Standard output is the string of characters written to it.
\<close>

fun dec_nat :: "nat \<Rightarrow> string" where
  "dec_nat n = (if n < 10 then [''0123456789'' ! n]
                else dec_nat (n div 10) @ [''0123456789'' ! (n mod 10)])"

definition printf_d :: "int32_t \<Rightarrow> string" where
  "printf_d w = (if sint w < 0 then CHR ''-'' # dec_nat (nat (- sint w)) else dec_nat (nat (sint w)))"

definition printf_line :: "string \<Rightarrow> int32_t \<Rightarrow> string" where
  "printf_line s w = s @ '' ('' @ printf_d w @ '')'' @ [CHR 0x0A]"

fun print_from :: "fzf_node_t option \<Rightarrow> string" where
  "print_from None = []"
| "print_from (Some (Node it nx)) = printf_line (str it) (score it) @ print_from nx"

definition fzf_list_print :: "fzf_linked_list_t \<Rightarrow> string" where
  "fzf_list_print list = print_from (head list)"

subsection \<open>The scoring callback and the single-threaded \<open>main\<close>\<close>

text \<open>
  \<open>fzf_parse_pattern\<close> and \<open>fzf_get_score\<close> come from \<open>fzf.h\<close>; they are parameters here:
  \<open>parse\<close> takes \<open>argv[1]\<close> (\<open>None\<close> when the argument vector ends there, where C has
  \<open>NULL\<close>), \<open>get_score\<close> takes the candidate and the pattern. The slab is scratch space
  of the scorer and carries no result.
\<close>

definition worker :: "(string \<Rightarrow> 'p \<Rightarrow> int32_t) \<Rightarrow> string \<Rightarrow> 'p \<Rightarrow> string" where
  "worker get_score copy pat =
     (let sc = get_score copy pat in if 0 <s sc then printf_line copy sc else [])"

text \<open>
  One result of \<open>getline\<close> is the line with its terminator, \<open>read\<close> is its length.
  \<open>strncpy(copy, line, read - 1)\<close> followed by \<open>copy[read - 1] = '\0'\<close> leaves in \<open>copy\<close>
  the C string of the first \<open>read - 1\<close> characters, which ends at the first NUL if there
  is one.
\<close>

definition copy_line :: "string \<Rightarrow> string" where
  "copy_line line = takeWhile (\<lambda>c. c \<noteq> CHR 0x00) (take (length line - 1) line)"

fun read_loop :: "(string \<Rightarrow> 'p \<Rightarrow> int32_t) \<Rightarrow> 'p \<Rightarrow> string list \<Rightarrow> fzf_linked_list_t \<Rightarrow> fzf_linked_list_t" where
  "read_loop get_score pat [] list = list"
| "read_loop get_score pat (line # rest) list =
     (let copy = copy_line line;
          sc = get_score copy pat
      in read_loop get_score pat rest
           (if 0 <s sc then fzf_list_insert list \<lparr>str = copy, score = sc\<rparr> else list))"

text \<open>
  \<open>main\<close> takes the argument vector and the successive results of \<open>getline\<close> on standard
  input; it gives what was written to standard output and the exit code.
\<close>

definition main :: "(string option \<Rightarrow> 'p) \<Rightarrow> (string \<Rightarrow> 'p \<Rightarrow> int32_t) \<Rightarrow> string list \<Rightarrow> string list \<Rightarrow> string \<times> int" where
  "main parse get_score argv lines =
     (let pat = parse (if 1 < length argv then Some (argv ! 1) else None);
          list = read_loop get_score pat lines fzf_list_create
      in (fzf_list_print list, 0))"

section \<open>The worker pool of \<open>cli.c\<close>\<close>

subsection \<open>Memory\<close>

text \<open>
  Tasks and pools live in allocated memory and are reached through pointers. A pointer is
  an address or \<open>NULL\<close> (\<open>None\<close>); the memory maps the addresses that are allocated to the
  objects stored there, one map for each struct type. \<open>free\<close> removes an address from the
  map, and a pointer to it then dangles.

  A function pointer \<open>thread_func_t\<close> and a \<open>fzf_pattern_t *\<close> are addresses that are
  never looked into here. Each condition variable stands for the number of signals and
  broadcasts sent on it so far. The mutex has no field: the code that runs between
  \<open>pthread_mutex_lock\<close> and \<open>pthread_mutex_unlock\<close> is one function of the memory, and the
  threads interleave such functions.
\<close>

type_synonym addr = nat
type_synonym thread_func_t = "nat option"
type_synonym pattern_ptr = "nat option"

record pool_work_t =
  func :: thread_func_t
  text' :: string
  pattern :: pattern_ptr
  next' :: "addr option"

record pool_t =
  work_first :: "addr option"
  work_last :: "addr option"
  work_cond :: nat
  working_cond :: nat
  working_cnt :: size_t
  thread_cnt :: size_t
  stop :: bool

record mem =
  pools :: "addr \<rightharpoonup> pool_t"
  works :: "addr \<rightharpoonup> pool_work_t"

text \<open>
  A function that dereferences pointers returns \<open>None\<close> when it reads, writes or frees
  through a pointer that is not allocated, where the C program has undefined behaviour.
  \<open>malloc\<close> and \<open>calloc\<close> are taken to succeed; the address they return is an argument of
  the function that calls them.
\<close>

subsection \<open>Tasks and the queue\<close>

definition pool_work_create ::
    "thread_func_t \<Rightarrow> string \<Rightarrow> pattern_ptr \<Rightarrow> addr \<Rightarrow> mem \<Rightarrow> addr option \<times> mem" where
  "pool_work_create f t pat a m =
     (if f = None then (None, m)
      else (Some a, m\<lparr>works := (works m)(a \<mapsto> \<lparr>func = f, text' = t, pattern = pat, next' = None\<rparr>)\<rparr>))"

definition pool_work_destroy :: "addr option \<Rightarrow> mem \<Rightarrow> mem option" where
  "pool_work_destroy work m =
     (case work of
        None \<Rightarrow> Some m
      | Some a \<Rightarrow> if works m a = None then None else Some (m\<lparr>works := (works m)(a := None)\<rparr>))"

definition tpool_work_get :: "addr option \<Rightarrow> mem \<Rightarrow> (addr option \<times> mem) option" where
  "tpool_work_get tm m =
     (case tm of
        None \<Rightarrow> Some (None, m)
      | Some p \<Rightarrow>
          (case pools m p of
             None \<Rightarrow> None
           | Some P \<Rightarrow>
               (case work_first P of
                  None \<Rightarrow> Some (None, m)
                | Some w \<Rightarrow>
                    (case works m w of
                       None \<Rightarrow> None
                     | Some W \<Rightarrow>
                         if next' W = None
                         then Some (Some w, m\<lparr>pools := (pools m)(p \<mapsto> P\<lparr>work_first := None, work_last := None\<rparr>)\<rparr>)
                         else Some (Some w, m\<lparr>pools := (pools m)(p \<mapsto> P\<lparr>work_first := next' W\<rparr>)\<rparr>)))))"

text \<open>
  \<open>pool_add_work\<close>; \<open>a\<close> is the address \<open>malloc\<close> returns inside \<open>pool_work_create\<close>.
\<close>

definition pool_add_work ::
    "addr option \<Rightarrow> thread_func_t \<Rightarrow> string \<Rightarrow> pattern_ptr \<Rightarrow> addr \<Rightarrow> mem \<Rightarrow> (bool \<times> mem) option" where
  "pool_add_work tm f t pat a m =
     (case tm of
        None \<Rightarrow> Some (False, m)
      | Some p \<Rightarrow>
          (case pool_work_create f t pat a m of
             (None, m1) \<Rightarrow> Some (False, m1)
           | (Some work, m1) \<Rightarrow>
               (case pools m1 p of
                  None \<Rightarrow> None
                | Some P \<Rightarrow>
                    if work_first P = None
                    then Some (True, m1\<lparr>pools := (pools m1)(p \<mapsto>
                           P\<lparr>work_first := Some work, work_last := Some work,
                             work_cond := work_cond P + 1\<rparr>)\<rparr>)
                    else
                      (case work_last P of
                         None \<Rightarrow> None
                       | Some l \<Rightarrow>
                           (case works m1 l of
                              None \<Rightarrow> None
                            | Some L \<Rightarrow>
                                Some (True, m1\<lparr>works := (works m1)(l \<mapsto> L\<lparr>next' := Some work\<rparr>),
                                              pools := (pools m1)(p \<mapsto>
                                                P\<lparr>work_last := Some work,
                                                  work_cond := work_cond P + 1\<rparr>)\<rparr>))))))"

subsection \<open>Waiting and shutting down\<close>

text \<open>
  A call that can sleep in \<open>pthread_cond_wait\<close> has three outcomes: it returns
  (\<open>Done\<close>), it sleeps (\<open>Blocked\<close>), or it makes an invalid access. \<open>Blocked\<close> carries the
  state the thread left behind; a woken thread runs the test of its loop again on the state
  that it then finds.
\<close>

datatype 'a outcome = Done 'a | Blocked 'a | Invalid

definition pool_wait :: "addr option \<Rightarrow> mem \<Rightarrow> mem outcome" where
  "pool_wait tm m =
     (case tm of
        None \<Rightarrow> Done m
      | Some p \<Rightarrow>
          (case pools m p of
             None \<Rightarrow> Invalid
           | Some P \<Rightarrow>
               if (\<not> stop P \<and> working_cnt P \<noteq> 0) \<or> (stop P \<and> thread_cnt P \<noteq> 0)
               then Blocked m
               else Done m))"

text \<open>
  The loop of \<open>pool_destroy\<close> that frees the pending tasks, from \<open>work\<close> on. It has no
  value where the loop reads a node that is not allocated, and where it never ends.
\<close>

partial_function (option) free_pending :: "addr option \<Rightarrow> mem \<Rightarrow> mem option" where
  "free_pending work m =
     (case work of
        None \<Rightarrow> Some m
      | Some a \<Rightarrow>
          (case works m a of
             None \<Rightarrow> None
           | Some W \<Rightarrow> Option.bind (pool_work_destroy work m) (free_pending (next' W))))"

text \<open>The critical section of \<open>pool_destroy\<close>, lines 153 to 162.\<close>

definition pool_destroy_sweep :: "addr \<Rightarrow> mem \<Rightarrow> mem option" where
  "pool_destroy_sweep p m =
     (case pools m p of
        None \<Rightarrow> None
      | Some P \<Rightarrow>
          (case free_pending (work_first P) m of
             None \<Rightarrow> None
           | Some m1 \<Rightarrow>
               (case pools m1 p of
                  None \<Rightarrow> None
                | Some P1 \<Rightarrow>
                    Some (m1\<lparr>pools := (pools m1)(p \<mapsto>
                            P1\<lparr>stop := True, work_cond := work_cond P1 + 1\<rparr>)\<rparr>))))"

text \<open>
  The rest of \<open>pool_destroy\<close>, lines 164 to 170: the call of \<open>pool_wait\<close>, then the mutex, the
  condition variables and the pool itself are released. A caller that sleeps in
  \<open>pool_wait\<close> continues here when it wakes up.
\<close>

definition pool_destroy_join :: "addr \<Rightarrow> mem \<Rightarrow> mem outcome" where
  "pool_destroy_join p m =
     (case pool_wait (Some p) m of
        Done m1 \<Rightarrow> if pools m1 p = None then Invalid else Done (m1\<lparr>pools := (pools m1)(p := None)\<rparr>)
      | Blocked m1 \<Rightarrow> Blocked m1
      | Invalid \<Rightarrow> Invalid)"

definition pool_destroy :: "addr option \<Rightarrow> mem \<Rightarrow> mem outcome" where
  "pool_destroy tm m =
     (case tm of
        None \<Rightarrow> Done m
      | Some p \<Rightarrow>
          (case pool_destroy_sweep p m of
             None \<Rightarrow> Invalid
           | Some m1 \<Rightarrow> pool_destroy_join p m1))"

subsection \<open>Worker threads\<close>

text \<open>
  A worker is at one of four places: before the critical section at the top of its loop
  (line 88), outside the mutex with the task it has taken (line 102), before the critical
  section that follows the task (line 107), or it has returned. \<open>tpool_worker\<close> runs a worker
  from its place to the next one. Calling \<open>work->func(work->text, work->pattern, slab)\<close>
  is recorded: the node \<open>work\<close>, the function, the text and the pattern are appended to the
  log of calls. What the called function does is outside the pool and is not modelled.
\<close>

datatype wpc = AtLock | HasWork "addr option" | AfterWork | Exited

type_synonym call = "addr \<times> thread_func_t \<times> string \<times> pattern_ptr"

definition task :: "addr \<Rightarrow> pool_work_t \<Rightarrow> call" where
  "task a W = (a, func W, text' W, pattern W)"

fun tpool_worker :: "addr \<Rightarrow> wpc \<Rightarrow> mem \<Rightarrow> call list \<Rightarrow> (wpc \<times> mem \<times> call list) outcome" where
  "tpool_worker tm AtLock m cs =
     (case pools m tm of
        None \<Rightarrow> Invalid
      | Some P \<Rightarrow>
          if work_first P = None \<and> \<not> stop P then Blocked (AtLock, m, cs)
          else if stop P
          then Done (Exited,
                     m\<lparr>pools := (pools m)(tm \<mapsto>
                         P\<lparr>thread_cnt := thread_cnt P - 1, working_cond := working_cond P + 1\<rparr>)\<rparr>,
                     cs)
          else
            (case tpool_work_get (Some tm) m of
               None \<Rightarrow> Invalid
             | Some (work, m1) \<Rightarrow>
                 (case pools m1 tm of
                    None \<Rightarrow> Invalid
                  | Some P1 \<Rightarrow>
                      Done (HasWork work,
                            m1\<lparr>pools := (pools m1)(tm \<mapsto> P1\<lparr>working_cnt := working_cnt P1 + 1\<rparr>)\<rparr>,
                            cs))))"
| "tpool_worker tm (HasWork work) m cs =
     (case work of
        None \<Rightarrow> Done (AfterWork, m, cs)
      | Some w \<Rightarrow>
          (case works m w of
             None \<Rightarrow> Invalid
           | Some W \<Rightarrow>
               if func W = None then Invalid
               else
                 (case pool_work_destroy work m of
                    None \<Rightarrow> Invalid
                  | Some m1 \<Rightarrow> Done (AfterWork, m1, cs @ [task w W]))))"
| "tpool_worker tm AfterWork m cs =
     (case pools m tm of
        None \<Rightarrow> Invalid
      | Some P \<Rightarrow>
          (let P1 = P\<lparr>working_cnt := working_cnt P - 1\<rparr>;
               P2 = (if \<not> stop P1 \<and> working_cnt P1 = 0 \<and> work_first P1 = None
                     then P1\<lparr>working_cond := working_cond P1 + 1\<rparr> else P1)
           in Done (AtLock, m\<lparr>pools := (pools m)(tm \<mapsto> P2)\<rparr>, cs)))"
| "tpool_worker tm Exited m cs = Blocked (Exited, m, cs)"

text \<open>
  The whole system: the memory, the worker threads (each with the pool it was started on
  and its place) and the log of calls. \<open>pool_create\<close> puts a zeroed pool at the address \<open>p\<close>
  that \<open>calloc\<close> returns and starts \<open>num\<close> workers on it.
\<close>

record sys =
  memory :: mem
  threads :: "(addr \<times> wpc) list"
  calls :: "call list"

definition pool_create :: "size_t \<Rightarrow> addr \<Rightarrow> sys \<Rightarrow> addr option \<times> sys" where
  "pool_create num p s =
     (Some p,
      s\<lparr>memory := (memory s)\<lparr>pools := (pools (memory s))(p \<mapsto>
           \<lparr>work_first = None, work_last = None, work_cond = 0, working_cond = 0,
            working_cnt = 0, thread_cnt = num, stop = False\<rparr>)\<rparr>,
        threads := threads s @ replicate (unat num) (p, AtLock)\<rparr>)"

text \<open>
  A schedule names the worker that runs next. A worker that sleeps or has returned, or a
  number that names no worker, leaves the system as it is.
\<close>

definition step :: "nat \<Rightarrow> sys \<Rightarrow> sys option" where
  "step i s =
     (if i < length (threads s)
      then (case tpool_worker (fst (threads s ! i)) (snd (threads s ! i)) (memory s) (calls s) of
              Invalid \<Rightarrow> None
            | Blocked x \<Rightarrow> Some s
            | Done (pc, m, cs) \<Rightarrow>
                Some (s\<lparr>memory := m, threads := (threads s)[i := (fst (threads s ! i), pc)],
                       calls := cs\<rparr>))
      else Some s)"

fun run :: "nat list \<Rightarrow> sys \<Rightarrow> sys option" where
  "run [] s = Some s"
| "run (i # sched) s = (case step i s of None \<Rightarrow> None | Some s1 \<Rightarrow> run sched s1)"

subsection \<open>The queue as a list of nodes\<close>

text \<open>
  \<open>chain h p as\<close>: following the \<open>next\<close> pointers from \<open>p\<close> visits exactly the allocated
  nodes \<open>as\<close> and ends at \<open>NULL\<close>. \<open>queue m p as\<close>: the pending queue of the pool at \<open>p\<close>
  consists of the nodes \<open>as\<close>, and \<open>work_last\<close> points to the last of them, or is \<open>NULL\<close>
  when there is none.
\<close>

fun chain :: "(addr \<rightharpoonup> pool_work_t) \<Rightarrow> addr option \<Rightarrow> addr list \<Rightarrow> bool" where
  "chain h p [] = (p = None)"
| "chain h p (a # as) = (p = Some a \<and> (case h a of None \<Rightarrow> False | Some W \<Rightarrow> chain h (next' W) as))"

definition queue :: "mem \<Rightarrow> addr \<Rightarrow> addr list \<Rightarrow> bool" where
  "queue m p as =
     (case pools m p of
        None \<Rightarrow> False
      | Some P \<Rightarrow>
          chain (works m) (work_first P) as \<and> distinct as \<and>
          work_last P = (if as = [] then None else Some (last as)))"

text \<open>
  The invariant of the queue pointers as the specification words it: \<open>work_last\<close> points to
  an allocated node exactly when \<open>work_first\<close> is not \<open>NULL\<close>, and when the first node has no
  successor \<open>work_first\<close> and \<open>work_last\<close> are equal.
\<close>

definition tail_valid_iff_head :: "mem \<Rightarrow> addr \<Rightarrow> bool" where
  "tail_valid_iff_head m p =
     (case pools m p of
        None \<Rightarrow> False
      | Some P \<Rightarrow>
          ((case work_last P of None \<Rightarrow> False | Some l \<Rightarrow> works m l \<noteq> None) = (work_first P \<noteq> None))
          \<and> (case work_first P of
               None \<Rightarrow> True
             | Some f \<Rightarrow>
                 (case works m f of
                    None \<Rightarrow> True
                  | Some W \<Rightarrow> if next' W = None then work_last P = work_first P else True)))"

text \<open>The calls that the nodes \<open>as\<close> stand for, in their order.\<close>

definition pending :: "mem \<Rightarrow> addr list \<Rightarrow> call list" where
  "pending m as = concat (map (\<lambda>a. case works m a of None \<Rightarrow> [] | Some W \<Rightarrow> [task a W]) as)"

subsection \<open>One producer and the order of dequeuing\<close>

text \<open>
  Under the mutex the queue sees one operation at a time: a submission by the producer, or
  a worker that takes a task. \<open>queue_op\<close> is one of them and gives the call of the task taken,
  if any; the worker reads the task and destroys the node as in lines 103 and 104.
  \<open>queue_ops\<close> runs a sequence of them and gives the calls in the order of dequeuing.
  \<open>mallocs_free\<close> says that each address \<open>malloc\<close> returns is free when it returns it.
\<close>

datatype qop = Submit thread_func_t string pattern_ptr addr | Take

fun queue_op :: "addr \<Rightarrow> qop \<Rightarrow> mem \<Rightarrow> (call list \<times> mem) option" where
  "queue_op p (Submit f t pat a) m =
     (case pool_add_work (Some p) f t pat a m of
        None \<Rightarrow> None
      | Some (ok, m1) \<Rightarrow> Some ([], m1))"
| "queue_op p Take m =
     (case tpool_work_get (Some p) m of
        None \<Rightarrow> None
      | Some (None, m1) \<Rightarrow> Some ([], m1)
      | Some (Some w, m1) \<Rightarrow>
          (case works m1 w of
             None \<Rightarrow> None
           | Some W \<Rightarrow>
               (case pool_work_destroy (Some w) m1 of
                  None \<Rightarrow> None
                | Some m2 \<Rightarrow> Some ([task w W], m2))))"

fun queue_ops :: "addr \<Rightarrow> qop list \<Rightarrow> mem \<Rightarrow> (call list \<times> mem) option" where
  "queue_ops p [] m = Some ([], m)"
| "queue_ops p (x # ops) m =
     (case queue_op p x m of
        None \<Rightarrow> None
      | Some (out, m1) \<Rightarrow>
          (case queue_ops p ops m1 of
             None \<Rightarrow> None
           | Some (outs, m2) \<Rightarrow> Some (out @ outs, m2)))"

fun mallocs_free :: "addr \<Rightarrow> qop list \<Rightarrow> mem \<Rightarrow> bool" where
  "mallocs_free p [] m = True"
| "mallocs_free p (x # ops) m =
     ((case x of Submit f t pat a \<Rightarrow> works m a = None | Take \<Rightarrow> True)
      \<and> (case queue_op p x m of None \<Rightarrow> False | Some (out, m1) \<Rightarrow> mallocs_free p ops m1))"

fun submitted :: "qop list \<Rightarrow> call list" where
  "submitted [] = []"
| "submitted (Submit f t pat a # ops) = (if f = None then [] else [(a, f, t, pat)]) @ submitted ops"
| "submitted (Take # ops) = submitted ops"

subsection \<open>Tasks in the hands of workers\<close>

text \<open>
  \<open>held m t\<close> is the call that the worker \<open>t\<close> is about to make, if it has taken a task and
  not yet run it; \<open>taken s\<close> lists the nodes that workers hold in this way.
  \<open>workers_ok p as s\<close>: every worker runs on the pool \<open>p\<close>, no node is held twice, and each
  node held is allocated, has a function, and is not among the nodes \<open>as\<close>.
\<close>

fun held_node :: "addr \<times> wpc \<Rightarrow> addr list" where
  "held_node (p, HasWork (Some a)) = [a]"
| "held_node (p, HasWork None) = []"
| "held_node (p, AtLock) = []"
| "held_node (p, AfterWork) = []"
| "held_node (p, Exited) = []"

definition held :: "mem \<Rightarrow> addr \<times> wpc \<Rightarrow> call list" where
  "held m t = pending m (held_node t)"

definition taken :: "sys \<Rightarrow> addr list" where
  "taken s = concat (map held_node (threads s))"

definition workers_ok :: "addr \<Rightarrow> addr list \<Rightarrow> sys \<Rightarrow> bool" where
  "workers_ok p as s =
     (list_all (\<lambda>t. fst t = p) (threads s) \<and> distinct (taken s) \<and>
      list_all (\<lambda>a. a \<notin> set as \<and> (case works (memory s) a of None \<Rightarrow> False | Some W \<Rightarrow> func W \<noteq> None))
        (taken s))"

text \<open>\<open>funcs_set m as\<close>: each of the nodes \<open>as\<close> is allocated and its function is not \<open>NULL\<close>.\<close>

definition funcs_set :: "mem \<Rightarrow> addr list \<Rightarrow> bool" where
  "funcs_set m as = list_all (\<lambda>a. case works m a of None \<Rightarrow> False | Some W \<Rightarrow> func W \<noteq> None) as"

text \<open>\<open>stopping p s\<close>: the pool at \<open>p\<close> exists and its flag \<open>stop\<close> is set.\<close>

definition stopping :: "addr \<Rightarrow> sys \<Rightarrow> bool" where
  "stopping p s = (case pools (memory s) p of None \<Rightarrow> False | Some P \<Rightarrow> stop P)"

subsection \<open>A small system\<close>

text \<open>
  The program at its start has nothing allocated and no worker. \<open>two_workers\<close> is the system
  after \<open>pool_create(2)\<close>, with the pool at address 0; \<open>one_pending\<close> is what one call of
  \<open>pool_add_work\<close> makes of it before any worker has run, the task being at address 1.
\<close>

definition boot :: sys where
  "boot = \<lparr>memory = \<lparr>pools = Map.empty, works = Map.empty\<rparr>, threads = [], calls = []\<rparr>"

definition two_workers :: sys where
  "two_workers = snd (pool_create 2 0 boot)"

definition one_pending :: sys where
  "one_pending =
     two_workers\<lparr>memory :=
       snd (the (pool_add_work (Some 0) (Some 7) ''foo'' None 1 (memory two_workers)))\<rparr>"

text \<open>
  \<open>one_taken\<close>: a second task has been submitted, at address 2, and the first worker has
  then taken the task at address 1 and not yet run it.
\<close>

definition one_taken :: sys where
  "one_taken =
     the (step 0 (one_pending\<lparr>memory :=
       snd (the (pool_add_work (Some 0) (Some 8) ''bar'' None 2 (memory one_pending)))\<rparr>))"

section \<open>Properties of the result collector\<close>

lemma tuples_Some: "tuples (Some n) = item n # tuples (next_node n)"
  by (cases n) simp

lemma tuples_scan_insert:
  "tuples (Some (scan_insert c n)) =
     item c # takeWhile (\<lambda>x. score (item n) <s score x) (tuples (next_node c))
       @ item n # dropWhile (\<lambda>x. score (item n) <s score x) (tuples (next_node c))"
  by (induction c n rule: scan_insert.induct) (simp_all add: tuples_Some)

lemma tuples_insert:
  "tuples (head (fzf_list_insert l it)) =
     takeWhile (\<lambda>x. score it <s score x) (tuples (head l))
       @ it # dropWhile (\<lambda>x. score it <s score x) (tuples (head l))"
proof (cases "head l")
  case None
  then show ?thesis by (simp add: fzf_list_insert_def create_node_def)
next
  case (Some h)
  obtain hi hn where h: "h = Node hi hn" by (cases h)
  show ?thesis
  proof (cases "score hi \<le>s score it")
    case True
    then have "\<not> score it <s score hi" by (simp add: signed.not_less)
    with True Some show ?thesis
      unfolding h by (simp add: fzf_list_insert_def create_node_def Let_def)
  next
    case False
    then have "score it <s score hi" by (simp add: signed.not_le)
    with False Some show ?thesis
      unfolding h
      by (simp add: fzf_list_insert_def create_node_def Let_def tuples_scan_insert)
  qed
qed

lemma len_insert: "len (fzf_list_insert l it) = len l + 1"
  by (simp add: fzf_list_insert_def Let_def split: option.splits)

lemma mset_place: "mset (takeWhile P xs @ x # dropWhile P xs) = add_mset x (mset xs)"
proof -
  have "mset (takeWhile P xs) + mset (dropWhile P xs) = mset (takeWhile P xs @ dropWhile P xs)"
    by (rule mset_append [symmetric])
  also have "\<dots> = mset xs"
    by (simp only: takeWhile_dropWhile_id)
  finally show ?thesis by simp
qed

lemma sorted_place:
  "sorted_wrt (\<lambda>a b. score b \<le>s score a) xs \<Longrightarrow>
   sorted_wrt (\<lambda>a b. score b \<le>s score a)
     (takeWhile (\<lambda>x. score (it::fzf_tuple_t) <s score x) xs
        @ it # dropWhile (\<lambda>x. score it <s score x) xs)"
proof (induction xs)
  case Nil
  then show ?case by simp
next
  case (Cons a xs)
  show ?case
  proof (cases "score it <s score a")
    case True
    have "score y \<le>s score a"
      if "y \<in> set (takeWhile (\<lambda>x. score it <s score x) xs)
            \<union> set (dropWhile (\<lambda>x. score it <s score x) xs)" for y
      using that Cons.prems by (auto dest: set_takeWhileD set_dropWhileD)
    with True Cons show ?thesis by (auto simp: signed.less_imp_le)
  next
    case False
    then have "score a \<le>s score it" by (simp add: signed.not_less)
    moreover have "score y \<le>s score a" if "y \<in> set xs" for y
      using that Cons.prems by auto
    ultimately show ?thesis
      using False Cons.prems by (auto intro: signed.order_trans)
  qed
qed

lemma print_from_tuples:
  "print_from n = concat (map (\<lambda>t. printf_line (str t) (score t)) (tuples n))"
  by (induction n rule: tuples.induct) simp_all

lemma mset_foldl_insert:
  "mset (tuples (head (foldl fzf_list_insert l its))) = mset (tuples (head l)) + mset its"
proof (induction its arbitrary: l)
  case Nil
  show ?case by simp
next
  case (Cons a its)
  have "mset (tuples (head (foldl fzf_list_insert (fzf_list_insert l a) its))) =
          mset (tuples (head (fzf_list_insert l a))) + mset its"
    by (rule Cons.IH)
  also have "mset (tuples (head (fzf_list_insert l a))) = add_mset a (mset (tuples (head l)))"
    by (simp only: tuples_insert mset_place)
  finally show ?case by simp
qed

lemma sorted_foldl_insert:
  "sorted_wrt (\<lambda>a b. score b \<le>s score a) (tuples (head l)) \<Longrightarrow>
   sorted_wrt (\<lambda>a b. score b \<le>s score a) (tuples (head (foldl fzf_list_insert l its)))"
  by (induction its arbitrary: l) (simp_all add: tuples_insert sorted_place)

lemma four_inserts:
  "tuples (head (foldl fzf_list_insert fzf_list_create
        [\<lparr>str = ''a'', score = 3\<rparr>, \<lparr>str = ''b'', score = 9\<rparr>,
         \<lparr>str = ''c'', score = 3\<rparr>, \<lparr>str = ''d'', score = 7\<rparr>])) =
      [\<lparr>str = ''b'', score = 9\<rparr>, \<lparr>str = ''d'', score = 7\<rparr>,
       \<lparr>str = ''c'', score = 3\<rparr>, \<lparr>str = ''a'', score = 3\<rparr>]"
  by (simp add: fzf_list_insert_def fzf_list_create_def create_node_def)

text \<open>
  Claim C2. \<open>fzf_list_insert\<close> keeps, in front of the new node, the longest run of nodes from
  the head whose score is strictly greater than the new score, and puts the new node
  immediately before the first node whose score is not strictly greater; an item inserted
  later therefore comes before the items of equal score already there. Inserting the scores
  3, 9, 3, 7 in this order into a fresh list gives 9, 7, the second 3, the first 3.
\<close>

theorem fzf_list_insert_position:
  "tuples (head (fzf_list_insert l it)) =
     takeWhile (\<lambda>x. score it <s score x) (tuples (head l))
       @ it # dropWhile (\<lambda>x. score it <s score x) (tuples (head l))
   \<and> tuples (head (foldl fzf_list_insert fzf_list_create
        [\<lparr>str = ''a'', score = 3\<rparr>, \<lparr>str = ''b'', score = 9\<rparr>,
         \<lparr>str = ''c'', score = 3\<rparr>, \<lparr>str = ''d'', score = 7\<rparr>])) =
      [\<lparr>str = ''b'', score = 9\<rparr>, \<lparr>str = ''d'', score = 7\<rparr>,
       \<lparr>str = ''c'', score = 3\<rparr>, \<lparr>str = ''a'', score = 3\<rparr>]"
  using tuples_insert four_inserts by blast

text \<open>
  Claim C3. After any sequence of \<open>fzf_list_insert\<close> calls on the list made by
  \<open>fzf_list_create\<close> the scores never increase from the head to the tail, and
  \<open>fzf_list_print\<close> writes one line for each node, in the order of the list.
\<close>

theorem fzf_list_sorted_and_printed:
  "sorted_wrt (\<lambda>a b. score b \<le>s score a)
     (tuples (head (foldl fzf_list_insert fzf_list_create its)))
   \<and> fzf_list_print l = concat (map (\<lambda>t. printf_line (str t) (score t)) (tuples (head l)))"
proof
  have "sorted_wrt (\<lambda>a b. score b \<le>s score a) (tuples (head fzf_list_create))"
    by (simp add: fzf_list_create_def)
  then show "sorted_wrt (\<lambda>a b. score b \<le>s score a)
     (tuples (head (foldl fzf_list_insert fzf_list_create its)))"
    by (rule sorted_foldl_insert)
  show "fzf_list_print l = concat (map (\<lambda>t. printf_line (str t) (score t)) (tuples (head l)))"
    by (simp add: fzf_list_print_def print_from_tuples)
qed

text \<open>
  Claim C10. \<open>fzf_list_insert\<close> adds the new pair and keeps every pair that was stored: the
  multiset of pairs grows by exactly the new one. The field \<open>len\<close> is incremented once; the
  increment is that of \<open>size_t\<close>, so the number it stands for grows by one unless it was
  already the largest value of the type.
\<close>

theorem fzf_list_insert_frame:
  "mset (tuples (head (fzf_list_insert l it))) = add_mset it (mset (tuples (head l)))
   \<and> len (fzf_list_insert l it) = len l + 1
   \<and> (len l \<noteq> - 1 \<longrightarrow> unat (len (fzf_list_insert l it)) = unat (len l) + 1)"
proof -
  have "unat (len l + 1) = unat (len l) + 1" if "len l \<noteq> - 1"
  proof -
    from that have "1 + len l \<noteq> 0"
      by (simp add: add_eq_0_iff)
    then have "unat (1 + len l) = Suc (unat (len l))"
      by (rule unatSuc)
    then show ?thesis
      by (simp add: add.commute)
  qed
  moreover have "mset (tuples (head (fzf_list_insert l it))) = add_mset it (mset (tuples (head l)))"
    by (simp only: tuples_insert mset_place)
  ultimately show ?thesis
    by (simp only: len_insert) simp
qed

theorem fzf_list_insert_frame_witness:
  "mset (tuples (head (fzf_list_insert fzf_list_create \<lparr>str = ''a'', score = 3\<rparr>))) =
     {#\<lparr>str = ''a'', score = 3\<rparr>#}
   \<and> len fzf_list_create \<noteq> - 1
   \<and> unat (len (fzf_list_insert fzf_list_create \<lparr>str = ''a'', score = 3\<rparr>)) = 1"
  using fzf_list_insert_frame [of fzf_list_create "\<lparr>str = ''a'', score = 3\<rparr>"]
  by (simp add: fzf_list_create_def)

section \<open>Properties of \<open>main\<close>\<close>

lemma read_loop_foldl:
  "read_loop gs pat lines l =
     foldl fzf_list_insert l
       [\<lparr>str = c, score = gs c pat\<rparr>. c \<leftarrow> map copy_line lines, 0 <s gs c pat]"
  by (induction lines arbitrary: l) (simp_all add: Let_def)

lemma copy_line_terminated: "CHR 0x00 \<notin> set c \<Longrightarrow> copy_line (c @ [nl]) = c"
  by (auto simp: copy_line_def)

text \<open>A last line that does not end in a newline loses its last character.\<close>

lemma copy_line_unterminated: "copy_line ''foobar'' = ''fooba''"
  by (simp add: copy_line_def)

lemma main_collects:
  "\<exists>L. main parse gs argv lines = (concat (map (\<lambda>t. printf_line (str t) (score t)) L), 0)
     \<and> mset L = mset [\<lparr>str = c, score = gs c (parse (if 1 < length argv then Some (argv ! 1) else None))\<rparr>.
                      c \<leftarrow> map copy_line lines,
                      0 <s gs c (parse (if 1 < length argv then Some (argv ! 1) else None))]
     \<and> sorted_wrt (\<lambda>a b. score b \<le>s score a) L"
proof -
  define pat where "pat = parse (if 1 < length argv then Some (argv ! 1) else None)"
  define kept where "kept = [\<lparr>str = c, score = gs c pat\<rparr>. c \<leftarrow> map copy_line lines, 0 <s gs c pat]"
  define L where "L = tuples (head (foldl fzf_list_insert fzf_list_create kept))"
  have "main parse gs argv lines = (concat (map (\<lambda>t. printf_line (str t) (score t)) L), 0)"
    unfolding L_def kept_def pat_def main_def Let_def read_loop_foldl fzf_list_print_def
    by (simp only: print_from_tuples)
  moreover have "mset L = mset kept"
    unfolding L_def by (simp add: mset_foldl_insert fzf_list_create_def)
  moreover have "sorted_wrt (\<lambda>a b. score b \<le>s score a) L"
    unfolding L_def by (rule sorted_foldl_insert) (simp add: fzf_list_create_def)
  ultimately show ?thesis
    unfolding kept_def pat_def by blast
qed

lemma main_on_terminated_lines:
  assumes "\<forall>c \<in> set cands. CHR 0x00 \<notin> set c"
  shows "\<exists>L. main parse gs argv (map (\<lambda>c. c @ [CHR 0x0A]) cands) =
               (concat (map (\<lambda>t. printf_line (str t) (score t)) L), 0)
     \<and> mset L = mset [\<lparr>str = c, score = gs c (parse (if 1 < length argv then Some (argv ! 1) else None))\<rparr>.
                      c \<leftarrow> cands,
                      0 <s gs c (parse (if 1 < length argv then Some (argv ! 1) else None))]
     \<and> sorted_wrt (\<lambda>a b. score b \<le>s score a) L"
proof -
  have eq: "map copy_line (map (\<lambda>c. c @ [CHR 0x0A]) cands) = cands"
    using assms by (induction cands) (simp_all add: copy_line_terminated)
  show ?thesis
    using main_collects [of parse gs argv "map (\<lambda>c. c @ [CHR 0x0A]) cands"]
    unfolding eq .
qed

text \<open>
  Whatever the argument vector and the lines read are, \<open>main\<close> returns 0 and writes one line
  for exactly the copies whose score is strictly positive, in an order in which the scores
  never increase; the copy of a line that ends in a newline and holds no NUL is the text
  before the newline.
\<close>

lemma main_prints_positive_copies:
  "(\<exists>L. main parse gs argv lines = (concat (map (\<lambda>t. printf_line (str t) (score t)) L), 0)
      \<and> mset L = mset [\<lparr>str = c, score = gs c (parse (if 1 < length argv then Some (argv ! 1) else None))\<rparr>.
                       c \<leftarrow> map copy_line lines,
                       0 <s gs c (parse (if 1 < length argv then Some (argv ! 1) else None))]
      \<and> sorted_wrt (\<lambda>a b. score b \<le>s score a) L)
   \<and> (CHR 0x00 \<notin> set c \<longrightarrow> copy_line (c @ [CHR 0x0A]) = c)"
  using main_collects [of parse gs argv lines] copy_line_terminated [of c "CHR 0x0A"]
  by blast

lemma main_prints_positive_copies_example:
  "(\<exists>L. main (\<lambda>q. q) (\<lambda>c p. if c = ''baz'' then 0 else of_nat (length c)) [''cli'', ''fb'']
           [''foobar'' @ [CHR 0x0A], ''baz'' @ [CHR 0x0A], ''fizzbuzz'' @ [CHR 0x0A]] =
             (concat (map (\<lambda>t. printf_line (str t) (score t)) L), 0)
      \<and> mset L = mset [\<lparr>str = ''foobar'', score = 6\<rparr>, \<lparr>str = ''fizzbuzz'', score = 8\<rparr>]
      \<and> sorted_wrt (\<lambda>a b. score b \<le>s score a) L)
   \<and> CHR 0x00 \<notin> set ''foobar''
   \<and> copy_line (''foobar'' @ [CHR 0x0A]) = ''foobar''"
  using main_prints_positive_copies [of "\<lambda>q. q"
      "\<lambda>c p. if c = ''baz'' then 0 else of_nat (length c)" "[''cli'', ''fb'']"
      "[''foobar'' @ [CHR 0x0A], ''baz'' @ [CHR 0x0A], ''fizzbuzz'' @ [CHR 0x0A]]" "''foobar''"]
  by (simp add: word_sless_alt copy_line_def)

lemma main_example:
  "main (\<lambda>q. q) (\<lambda>c p. if c = ''baz'' then 0 else of_nat (length c)) [''cli'', ''fb'']
     (map (\<lambda>c. c @ [CHR 0x0A]) [''foobar'', ''baz'', ''fizzbuzz'']) =
   (''fizzbuzz (8)'' @ [CHR 0x0A] @ ''foobar (6)'' @ [CHR 0x0A], 0)"
  by (simp add: main_def copy_line_def fzf_list_create_def fzf_list_insert_def create_node_def
      fzf_list_print_def printf_line_def printf_d_def Let_def word_sless_alt)

text \<open>
  Claim C6, on the code. \<open>main\<close> drops the last byte of every line, newline or not. When
  standard input is \<open>foobar\<close> with no newline at its end, the candidate handed to the scorer
  is \<open>fooba\<close>: with a scorer that gives 5 to \<open>foobar\<close> and 0 to everything else \<open>main\<close> writes
  nothing, although the candidate has a positive score, and with a scorer that gives every
  string its length \<open>main\<close> writes \<open>fooba (5)\<close>, which is no candidate of the input. With the
  newline at the end the line \<open>foobar (5)\<close> is written.
\<close>

theorem main_truncates_unterminated_line:
  "main (\<lambda>q. q) (\<lambda>c p. if c = ''foobar'' then 5 else 0) [''cli'', ''fb''] [''foobar''] = ([], 0)
   \<and> main (\<lambda>q. q) (\<lambda>c p. of_nat (length c)) [''cli'', ''fb''] [''foobar''] =
       (''fooba (5)'' @ [CHR 0x0A], 0)
   \<and> main (\<lambda>q. q) (\<lambda>c p. if c = ''foobar'' then 5 else 0) [''cli'', ''fb'']
         [''foobar'' @ [CHR 0x0A]] =
       (''foobar (5)'' @ [CHR 0x0A], 0)"
  by (simp add: main_def copy_line_def fzf_list_create_def fzf_list_insert_def create_node_def
      fzf_list_print_def printf_line_def printf_d_def Let_def word_sless_alt)

section \<open>Properties of the task queue\<close>

lemma chain_upd_other: "a \<notin> set as \<Longrightarrow> chain (h(a := v)) p as = chain h p as"
  by (induction as arbitrary: p) (auto split: option.splits)

lemma chain_allocated: "chain h p as \<Longrightarrow> a \<in> set as \<Longrightarrow> h a \<noteq> None"
  by (induction as arbitrary: p) (auto split: option.splits)

lemma chain_last: "chain h p as \<Longrightarrow> as \<noteq> [] \<Longrightarrow> \<exists>L. h (last as) = Some L \<and> next' L = None"
  by (induction as arbitrary: p) (auto split: option.splits)

lemma chain_head: "chain h p as \<Longrightarrow> (p = None) = (as = [])"
  by (cases as) auto

lemma chain_snoc:
  "chain h p as \<Longrightarrow> as \<noteq> [] \<Longrightarrow> distinct as \<Longrightarrow> b \<notin> set as \<Longrightarrow> h (last as) = Some L \<Longrightarrow>
   next' N = None \<Longrightarrow>
   chain ((h(b \<mapsto> N))(last as \<mapsto> L\<lparr>next' := Some b\<rparr>)) p (as @ [b])"
proof (induction as arbitrary: p)
  case Nil
  then show ?case by simp
next
  case (Cons a as)
  from Cons.prems obtain W where W: "p = Some a" "h a = Some W" "chain h (next' W) as"
    by (auto split: option.splits)
  show ?case
  proof (cases "as = []")
    case True
    with Cons.prems W show ?thesis by auto
  next
    case False
    with Cons.prems have ne: "a \<noteq> last as" "a \<noteq> b" by auto
    from Cons.prems False have d: "distinct as" and nb: "b \<notin> set as"
      and l: "h (last as) = Some L"
      by simp_all
    have step: "chain ((h(b \<mapsto> N))(last as \<mapsto> L\<lparr>next' := Some b\<rparr>)) (next' W) (as @ [b])"
      by (rule Cons.IH [OF W(3) False d nb l Cons.prems(6)])
    have ha: "((h(b \<mapsto> N))(last as \<mapsto> L\<lparr>next' := Some b\<rparr>)) a = Some W"
      using ne W(2) by simp
    have la: "last (a # as) = last as"
      using False by simp
    show ?thesis
      unfolding la append_Cons chain.simps ha
      using W(1) step by simp
  qed
qed

lemma queue_tail_valid: "queue m p as \<Longrightarrow> tail_valid_iff_head m p"
proof -
  assume q: "queue m p as"
  then obtain P where P: "pools m p = Some P" "chain (works m) (work_first P) as" "distinct as"
      "work_last P = (if as = [] then None else Some (last as))"
    by (auto simp: queue_def split: option.splits)
  show ?thesis
  proof (cases as)
    case Nil
    with P show ?thesis by (simp add: tail_valid_iff_head_def)
  next
    case (Cons a bs)
    with P obtain W where W: "work_first P = Some a" "works m a = Some W" "chain (works m) (next' W) bs"
      by (auto split: option.splits)
    from chain_last [OF P(2)] Cons obtain L where L: "works m (last as) = Some L" by auto
    have "next' W = None \<Longrightarrow> bs = []" using W(3) by (cases bs) auto
    with P W L Cons show ?thesis
      by (auto simp: tail_valid_iff_head_def)
  qed
qed

lemma add_work_queue:
  assumes q: "queue m p as" and fresh: "works m a = None" and f: "f \<noteq> None"
  shows "\<exists>m'. pool_add_work (Some p) f t pat a m = Some (True, m')
           \<and> queue m' p (as @ [a])
           \<and> works m' a = Some \<lparr>func = f, text' = t, pattern = pat, next' = None\<rparr>
           \<and> (\<forall>b. b \<notin> set as \<longrightarrow> b \<noteq> a \<longrightarrow> works m' b = works m b)
           \<and> (\<forall>b \<in> set as. map_option (task b) (works m' b) = map_option (task b) (works m b))
           \<and> (\<forall>q. q \<noteq> p \<longrightarrow> pools m' q = pools m q)
           \<and> (\<exists>P P'. pools m p = Some P \<and> pools m' p = Some P' \<and> work_cond P' = work_cond P + 1
                 \<and> working_cnt P' = working_cnt P \<and> thread_cnt P' = thread_cnt P \<and> stop P' = stop P
                 \<and> working_cond P' = working_cond P)"
proof -
  from q obtain P where P: "pools m p = Some P" "chain (works m) (work_first P) as" "distinct as"
      "work_last P = (if as = [] then None else Some (last as))"
    by (auto simp: queue_def split: option.splits)
  have notin: "a \<notin> set as" using chain_allocated [OF P(2), of a] fresh by auto
  let ?N = "\<lparr>func = f, text' = t, pattern = pat, next' = None\<rparr>"
  show ?thesis
  proof (cases "as = []")
    case True
    with P have "work_first P = None" by simp
    with P f True show ?thesis
      by (simp add: pool_add_work_def pool_work_create_def queue_def)
  next
    case False
    with P have nf: "work_first P \<noteq> None" by (cases as) auto
    from chain_last [OF P(2) False] obtain L where L: "works m (last as) = Some L" "next' L = None"
      by auto
    from False notin have la: "last as \<noteq> a" by (metis last_in_set)
    have ch: "chain (((works m)(a \<mapsto> ?N))(last as \<mapsto> L\<lparr>next' := Some a\<rparr>)) (work_first P) (as @ [a])"
      by (rule chain_snoc [OF P(2) False P(3) notin L(1)]) simp
    from P f nf L la False notin ch show ?thesis
      by (auto simp: pool_add_work_def pool_work_create_def queue_def task_def)
  qed
qed

lemma work_get_queue_Cons:
  assumes q: "queue m p (a # as)"
  shows "\<exists>m'. tpool_work_get (Some p) m = Some (Some a, m') \<and> queue m' p as \<and> works m' = works m
           \<and> (\<forall>q. q \<noteq> p \<longrightarrow> pools m' q = pools m q)
           \<and> (\<exists>P P'. pools m p = Some P \<and> pools m' p = Some P' 
                 \<and> P'\<lparr>work_first := work_first P, work_last := work_last P\<rparr> = P)"
proof -
  from q obtain P W where P: "pools m p = Some P" "work_first P = Some a" "works m a = Some W"
      "chain (works m) (next' W) as" "distinct (a # as)" "work_last P = Some (last (a # as))"
    by (auto simp: queue_def split: option.splits)
  show ?thesis
  proof (cases as)
    case Nil
    with P show ?thesis by (simp add: tpool_work_get_def queue_def)
  next
    case (Cons b bs)
    with P have "next' W = Some b" by simp
    with P Cons show ?thesis by (simp add: tpool_work_get_def queue_def)
  qed
qed

lemma work_get_queue_Nil:
  "queue m p [] \<Longrightarrow> tpool_work_get (Some p) m = Some (None, m)"
  by (auto simp: tpool_work_get_def queue_def split: option.splits)

lemma free_pending_chain:
  "chain (works m) w as \<Longrightarrow> distinct as \<Longrightarrow>
   free_pending w m = Some (m\<lparr>works := (\<lambda>x. if x \<in> set as then None else works m x)\<rparr>)"
proof (induction as arbitrary: w m)
  case Nil
  then show ?case by (subst free_pending.simps) simp
next
  case (Cons a as)
  from Cons.prems obtain W where W: "w = Some a" "works m a = Some W" "chain (works m) (next' W) as"
    by (auto split: option.splits)
  let ?m1 = "m\<lparr>works := (works m)(a := None)\<rparr>"
  have c1: "chain (works ?m1) (next' W) as"
    using W(3) Cons.prems(2) by (simp add: chain_upd_other)
  have d1: "distinct as"
    using Cons.prems(2) by simp
  have "free_pending (next' W) ?m1 =
      Some (?m1\<lparr>works := (\<lambda>x. if x \<in> set as then None else works ?m1 x)\<rparr>)"
    by (rule Cons.IH [OF c1 d1])
  moreover have "(\<lambda>x. if x \<in> set as then None else works ?m1 x) =
      (\<lambda>x. if x \<in> set (a # as) then None else works m x)"
    by auto
  ultimately show ?case
    using W by (subst free_pending.simps) (simp add: pool_work_destroy_def)
qed


subsection \<open>The small system, computed\<close>

lemma two_workers_eq:
  "two_workers = \<lparr>memory = \<lparr>pools = [0 \<mapsto> \<lparr>work_first = None, work_last = None, work_cond = 0,
        working_cond = 0, working_cnt = 0, thread_cnt = 2, stop = False\<rparr>], works = Map.empty\<rparr>,
      threads = [(0, AtLock), (0, AtLock)], calls = []\<rparr>"
proof -
  have u: "unat (2 :: size_t) = Suc (Suc 0)"
    by simp
  show ?thesis
    unfolding two_workers_def pool_create_def boot_def u by simp
qed

lemma one_pending_eq:
  "one_pending = \<lparr>memory = \<lparr>pools = [0 \<mapsto> \<lparr>work_first = Some 1, work_last = Some 1, work_cond = 1,
        working_cond = 0, working_cnt = 0, thread_cnt = 2, stop = False\<rparr>],
        works = [1 \<mapsto> \<lparr>func = Some 7, text' = ''foo'', pattern = None, next' = None\<rparr>]\<rparr>,
      threads = [(0, AtLock), (0, AtLock)], calls = []\<rparr>"
  by (simp add: one_pending_def two_workers_eq pool_add_work_def pool_work_create_def)

lemma queue_two_workers: "queue (memory two_workers) 0 []"
  by (simp add: two_workers_eq queue_def)

lemma queue_one_pending: "queue (memory one_pending) 0 [1]"
  by (simp add: one_pending_eq queue_def)

lemma sweep_queue:
  assumes q: "queue m p as"
  shows "\<exists>P. pools m p = Some P \<and>
           pool_destroy_sweep p m =
             Some (m\<lparr>works := (\<lambda>x. if x \<in> set as then None else works m x),
                     pools := (pools m)(p \<mapsto> P\<lparr>stop := True, work_cond := work_cond P + 1\<rparr>)\<rparr>)"
proof -
  from q obtain P where P: "pools m p = Some P" "chain (works m) (work_first P) as" "distinct as"
    by (auto simp: queue_def split: option.splits)
  from free_pending_chain [OF P(2) P(3)] P(1) show ?thesis
    by (simp add: pool_destroy_sweep_def)
qed

subsection \<open>Submitting\<close>

text \<open>
  Claim C7. \<open>pool_add_work\<close> returns false and leaves the memory as it was, with nothing
  enqueued and no broadcast, when the pool handle is \<open>NULL\<close> or the task function is
  \<open>NULL\<close>. Otherwise, on a pool whose queue holds the nodes \<open>as\<close> and with the new node at
  an address that is free, it returns true, the queue is \<open>as\<close> followed by the new node, the
  new node holds the function, the text and the pattern, and one broadcast has been sent on
  \<open>work_cond\<close>.
\<close>

theorem pool_add_work_result:
  "((tm = None \<or> f = None) \<longrightarrow> pool_add_work tm f t pat a m = Some (False, m))
   \<and> (queue m p as \<and> works m a = None \<and> f \<noteq> None \<longrightarrow>
        (\<exists>m'. pool_add_work (Some p) f t pat a m = Some (True, m')
           \<and> queue m' p (as @ [a])
           \<and> works m' a = Some \<lparr>func = f, text' = t, pattern = pat, next' = None\<rparr>
           \<and> map_option work_cond (pools m' p) = map_option (\<lambda>P. work_cond P + 1) (pools m p)))"
proof (intro conjI impI)
  assume "tm = None \<or> f = None"
  then show "pool_add_work tm f t pat a m = Some (False, m)"
    by (auto simp: pool_add_work_def pool_work_create_def split: option.splits)
next
  assume "queue m p as \<and> works m a = None \<and> f \<noteq> None"
  then have q: "queue m p as" and fr: "works m a = None" and f: "f \<noteq> None"
    by simp_all
  from add_work_queue [OF q fr f, of t pat]
  show "\<exists>m'. pool_add_work (Some p) f t pat a m = Some (True, m')
           \<and> queue m' p (as @ [a])
           \<and> works m' a = Some \<lparr>func = f, text' = t, pattern = pat, next' = None\<rparr>
           \<and> map_option work_cond (pools m' p) = map_option (\<lambda>P. work_cond P + 1) (pools m p)"
    by auto
qed

theorem pool_add_work_result_witness:
  "pool_add_work None (Some 7) ''foo'' None 1 (memory two_workers) = Some (False, memory two_workers)
   \<and> pool_add_work (Some 0) None ''foo'' None 1 (memory two_workers) = Some (False, memory two_workers)
   \<and> (\<exists>m'. pool_add_work (Some 0) (Some 7) ''foo'' None 1 (memory two_workers) = Some (True, m')
           \<and> queue m' 0 [1]
           \<and> works m' 1 = Some \<lparr>func = Some 7, text' = ''foo'', pattern = None, next' = None\<rparr>
           \<and> map_option work_cond (pools m' 0) = Some 1)"
  using pool_add_work_result [of None "Some 7" "''foo''" None 1 "memory two_workers" 0 "[]"]
    pool_add_work_result [of "Some 0" None "''foo''" None 1 "memory two_workers" 0 "[]"]
    pool_add_work_result [of "Some 0" "Some 7" "''foo''" None 1 "memory two_workers" 0 "[]"]
    queue_two_workers
  by (simp add: two_workers_eq)

subsection \<open>The \<open>NULL\<close> handle\<close>

text \<open>
  Claim C9. On the \<open>NULL\<close> handle \<open>pool_wait\<close> and \<open>pool_destroy\<close> return at once: whatever
  the memory is, they return and leave it as it is.
\<close>

theorem pool_null_handle:
  "pool_wait None m = Done m \<and> pool_destroy None m = Done m"
  by (simp add: pool_wait_def pool_destroy_def)

subsection \<open>Waiting\<close>

text \<open>
  On a pool that exists \<open>pool_wait\<close> returns exactly when no worker is busy and the pool is
  not stopping, or the pool is stopping and every worker has returned; otherwise it sleeps.
\<close>

lemma pool_wait_returns_iff:
  "pools m p = Some P \<Longrightarrow>
   (pool_wait (Some p) m = Done m) = ((\<not> stop P \<and> working_cnt P = 0) \<or> (stop P \<and> thread_cnt P = 0))"
  by (auto simp: pool_wait_def)

lemma pool_wait_blocks_iff:
  "pools m p = Some P \<Longrightarrow>
   (pool_wait (Some p) m = Blocked m) = ((\<not> stop P \<and> working_cnt P \<noteq> 0) \<or> (stop P \<and> thread_cnt P \<noteq> 0))"
  by (auto simp: pool_wait_def)

text \<open>
  Claim C1, on the code. \<open>pool_wait\<close> tests \<open>working_cnt\<close> and never the queue. After
  \<open>pool_create(2)\<close> and one \<open>pool_add_work\<close>, before a worker has run, the pool is not
  stopping and no worker is busy: \<open>pool_wait\<close> returns, although the task is still in the
  queue and has not been called.
\<close>

theorem pool_wait_returns_with_pending:
  "pool_wait (Some 0) (memory one_pending) = Done (memory one_pending)
   \<and> queue (memory one_pending) 0 [1]
   \<and> map_option stop (pools (memory one_pending) 0) = Some False
   \<and> calls one_pending = []"
  by (simp add: pool_wait_def one_pending_eq queue_def)

subsection \<open>The queue pointers\<close>

text \<open>
  Claim C8, on the code. The sweep of \<open>pool_destroy\<close> frees the pending nodes and does not
  reset \<open>work_first\<close> and \<open>work_last\<close>, as \<open>tpool_work_get\<close> does when it takes the last node.
  With one task pending the pointers satisfy the invariant before the sweep; after it
  \<open>work_first\<close> is not \<open>NULL\<close> while \<open>work_last\<close> points to a node that has been freed. The
  pool is still in use then: \<open>pool_destroy\<close> sleeps in \<open>pool_wait\<close> until the workers have
  returned, and a \<open>pool_add_work\<close> in that state writes through the freed \<open>work_last\<close>.
\<close>

theorem sweep_breaks_tail_invariant:
  "tail_valid_iff_head (memory one_pending) 0
   \<and> pool_destroy_sweep 0 (memory one_pending) \<noteq> None
   \<and> \<not> tail_valid_iff_head (the (pool_destroy_sweep 0 (memory one_pending))) 0
   \<and> map_option work_first (pools (the (pool_destroy_sweep 0 (memory one_pending))) 0) = Some (Some 1)
   \<and> map_option work_last (pools (the (pool_destroy_sweep 0 (memory one_pending))) 0) = Some (Some 1)
   \<and> works (the (pool_destroy_sweep 0 (memory one_pending))) 1 = None
   \<and> pool_destroy (Some 0) (memory one_pending) =
       Blocked (the (pool_destroy_sweep 0 (memory one_pending)))
   \<and> pool_add_work (Some 0) (Some 8) ''bar'' None 2
         (the (pool_destroy_sweep 0 (memory one_pending))) = None"
proof -
  from sweep_queue [OF queue_one_pending] show ?thesis
    by (auto simp: one_pending_eq tail_valid_iff_head_def pool_destroy_def pool_destroy_join_def
        pool_wait_def pool_add_work_def pool_work_create_def)
qed

text \<open>
  The other two operations keep the invariant. A pool whose pending tasks form a queue (a
  chain of allocated nodes from \<open>work_first\<close> that ends in \<open>NULL\<close> at the node \<open>work_last\<close>
  points to, both pointers \<open>NULL\<close> when there is no node) satisfies the invariant of the
  pointers; \<open>pool_add_work\<close> and \<open>tpool_work_get\<close> give such a queue again, with the new
  node at the end or the first node removed. After the sweep the invariant holds exactly
  when the queue was empty.
\<close>

lemma queue_kept_by_add_and_get:
  assumes q: "queue m p as"
  shows "tail_valid_iff_head m p
     \<and> (works m a = None \<and> f \<noteq> None \<longrightarrow>
          (\<exists>m'. pool_add_work (Some p) f t pat a m = Some (True, m')
             \<and> queue m' p (as @ [a]) \<and> tail_valid_iff_head m' p))
     \<and> (\<exists>r m'. tpool_work_get (Some p) m = Some (r, m')
             \<and> queue m' p (tl as) \<and> tail_valid_iff_head m' p)
     \<and> (\<exists>m'. pool_destroy_sweep p m = Some m'
             \<and> (\<forall>b \<in> set as. works m' b = None)
             \<and> map_option work_first (pools m' p) = map_option work_first (pools m p)
             \<and> map_option work_last (pools m' p) = map_option work_last (pools m p)
             \<and> tail_valid_iff_head m' p = (as = []))"
proof (intro conjI impI)
  show "tail_valid_iff_head m p"
    using q by (rule queue_tail_valid)
next
  assume "works m a = None \<and> f \<noteq> None"
  then have fr: "works m a = None" and f: "f \<noteq> None"
    by simp_all
  from add_work_queue [OF q fr f, of t pat] obtain m' where
    m': "pool_add_work (Some p) f t pat a m = Some (True, m')" "queue m' p (as @ [a])"
    by blast
  with queue_tail_valid [OF m'(2)]
  show "\<exists>m'. pool_add_work (Some p) f t pat a m = Some (True, m')
             \<and> queue m' p (as @ [a]) \<and> tail_valid_iff_head m' p"
    by blast
next
  show "\<exists>r m'. tpool_work_get (Some p) m = Some (r, m')
             \<and> queue m' p (tl as) \<and> tail_valid_iff_head m' p"
  proof (cases as)
    case Nil
    with q work_get_queue_Nil [of m p] queue_tail_valid [of m p "[]"] show ?thesis
      by auto
  next
    case (Cons b bs)
    with q work_get_queue_Cons [of m p b bs] obtain m' where
      m': "tpool_work_get (Some p) m = Some (Some b, m')" "queue m' p bs"
      by blast
    with queue_tail_valid [OF m'(2)] Cons show ?thesis
      by auto
  qed
next
  from q obtain P where P: "pools m p = Some P" "chain (works m) (work_first P) as"
      "work_last P = (if as = [] then None else Some (last as))"
    by (auto simp: queue_def split: option.splits)
  from sweep_queue [OF q] P(1) have sw: "pool_destroy_sweep p m =
      Some (m\<lparr>works := (\<lambda>x. if x \<in> set as then None else works m x),
              pools := (pools m)(p \<mapsto> P\<lparr>stop := True, work_cond := work_cond P + 1\<rparr>)\<rparr>)"
    by simp
  have "tail_valid_iff_head
          (m\<lparr>works := (\<lambda>x. if x \<in> set as then None else works m x),
             pools := (pools m)(p \<mapsto> P\<lparr>stop := True, work_cond := work_cond P + 1\<rparr>)\<rparr>) p = (as = [])"
  proof (cases as)
    case Nil
    with P show ?thesis by (simp add: tail_valid_iff_head_def)
  next
    case (Cons b bs)
    with P have "work_first P = Some b" by simp
    with P Cons show ?thesis by (simp add: tail_valid_iff_head_def)
  qed
  with sw P(1)
  show "\<exists>m'. pool_destroy_sweep p m = Some m'
             \<and> (\<forall>b \<in> set as. works m' b = None)
             \<and> map_option work_first (pools m' p) = map_option work_first (pools m p)
             \<and> map_option work_last (pools m' p) = map_option work_last (pools m p)
             \<and> tail_valid_iff_head m' p = (as = [])"
    by simp
qed

lemma queue_kept_by_add_and_get_example:
  "queue (memory one_pending) 0 [1]
   \<and> tail_valid_iff_head (memory one_pending) 0
   \<and> (\<exists>m'. pool_add_work (Some 0) (Some 8) ''bar'' None 2 (memory one_pending) = Some (True, m')
             \<and> queue m' 0 [1, 2] \<and> tail_valid_iff_head m' 0)
   \<and> (\<exists>r m'. tpool_work_get (Some 0) (memory one_pending) = Some (r, m')
             \<and> queue m' 0 [] \<and> tail_valid_iff_head m' 0)
   \<and> (\<exists>m'. pool_destroy_sweep 0 (memory one_pending) = Some m'
             \<and> works m' 1 = None
             \<and> map_option work_first (pools m' 0) = Some (Some 1)
             \<and> map_option work_last (pools m' 0) = Some (Some 1)
             \<and> \<not> tail_valid_iff_head m' 0)"
  using queue_kept_by_add_and_get [OF queue_one_pending, of 2 "Some 8" "''bar''" None] queue_one_pending
  by (simp add: one_pending_eq)

section \<open>The order of dequeuing\<close>

lemma pending_Nil: "pending m [] = []"
  by (simp add: pending_def)

lemma pending_Cons:
  "pending m (a # as) = (case works m a of None \<Rightarrow> [] | Some W \<Rightarrow> [task a W]) @ pending m as"
  by (simp add: pending_def)

lemma pending_append: "pending m (as @ bs) = pending m as @ pending m bs"
  by (simp add: pending_def)

lemma pending_cong:
  "(\<And>b. b \<in> set as \<Longrightarrow> map_option (task b) (works m' b) = map_option (task b) (works m b)) \<Longrightarrow>
   pending m' as = pending m as"
proof (induction as)
  case Nil
  show ?case by (simp add: pending_Nil)
next
  case (Cons a as)
  have "map_option (task a) (works m' a) = map_option (task a) (works m a)"
    by (rule Cons.prems) simp
  then have "(case works m' a of None \<Rightarrow> [] | Some W \<Rightarrow> [task a W]) =
             (case works m a of None \<Rightarrow> [] | Some W \<Rightarrow> [task a W])"
    by (cases "works m' a"; cases "works m a") simp_all
  moreover have "pending m' as = pending m as"
    by (rule Cons.IH) (simp add: Cons.prems)
  ultimately show ?case by (simp add: pending_Cons)
qed

lemma queue_op_Submit:
  assumes q: "queue m p as" and fr: "works m a = None"
  shows "\<exists>m'. queue_op p (Submit f t pat a) m = Some ([], m')
           \<and> (\<exists>as'. queue m' p as' \<and> pending m' as' = pending m as @ submitted [Submit f t pat a])"
proof (cases "f = None")
  case True
  then have "queue_op p (Submit f t pat a) m = Some ([], m)"
    by (simp add: pool_add_work_def pool_work_create_def)
  with True q show ?thesis by auto
next
  case False
  from add_work_queue [OF q fr False, of t pat] obtain m' where
    m': "pool_add_work (Some p) f t pat a m = Some (True, m')" "queue m' p (as @ [a])"
      "works m' a = Some \<lparr>func = f, text' = t, pattern = pat, next' = None\<rparr>"
      "\<forall>b \<in> set as. map_option (task b) (works m' b) = map_option (task b) (works m b)"
    by blast
  have "pending m' as = pending m as"
    by (rule pending_cong) (use m'(4) in simp)
  then have "pending m' (as @ [a]) = pending m as @ submitted [Submit f t pat a]"
    using False m'(3) by (simp add: pending_append pending_Cons pending_Nil task_def)
  with m'(1,2) show ?thesis by auto
qed

lemma queue_free_head:
  assumes q: "queue m p as" and w: "w \<notin> set as"
  shows "queue (m\<lparr>works := (works m)(w := None)\<rparr>) p as"
  using q w by (auto simp: queue_def chain_upd_other split: option.splits)

lemma queue_op_Take:
  assumes q: "queue m p as"
  shows "\<exists>out m'. queue_op p Take m = Some (out, m')
           \<and> (\<exists>as'. queue m' p as' \<and> out @ pending m' as' = pending m as)"
proof (cases as)
  case Nil
  with q work_get_queue_Nil [of m p] show ?thesis by auto
next
  case (Cons b bs)
  with q work_get_queue_Cons [of m p b bs] obtain m1 where
    m1: "tpool_work_get (Some p) m = Some (Some b, m1)" "queue m1 p bs" "works m1 = works m"
    by blast
  from q Cons obtain W where W: "works m b = Some W" and nb: "b \<notin> set bs"
    by (auto simp: queue_def split: option.splits)
  let ?m2 = "m1\<lparr>works := (works m1)(b := None)\<rparr>"
  have op: "queue_op p Take m = Some ([task b W], ?m2)"
    using m1 W by (simp add: pool_work_destroy_def)
  have q2: "queue ?m2 p bs"
    using m1(2) nb by (rule queue_free_head)
  have "pending ?m2 bs = pending m bs"
    by (rule pending_cong) (use nb m1(3) in auto)
  then have "[task b W] @ pending ?m2 bs = pending m as"
    using Cons W by (simp add: pending_Cons)
  with op q2 show ?thesis by blast
qed

lemma queue_ops_fifo:
  "queue m p as \<Longrightarrow> mallocs_free p ops m \<Longrightarrow>
   \<exists>out m' as'. queue_ops p ops m = Some (out, m') \<and> queue m' p as'
      \<and> out @ pending m' as' = pending m as @ submitted ops"
proof (induction ops arbitrary: m as)
  case Nil
  then show ?case by auto
next
  case (Cons x ops)
  have "\<exists>out m1 as1. queue_op p x m = Some (out, m1) \<and> queue m1 p as1
          \<and> out @ pending m1 as1 = pending m as @ submitted [x]"
  proof (cases x)
    case (Submit f t pat a)
    with Cons.prems have "works m a = None" by simp
    from queue_op_Submit [OF Cons.prems(1) this, of f t pat] Submit show ?thesis
      by auto
  next
    case Take
    with queue_op_Take [OF Cons.prems(1)] show ?thesis by auto
  qed
  then obtain out m1 as1 where s1: "queue_op p x m = Some (out, m1)" "queue m1 p as1"
      "out @ pending m1 as1 = pending m as @ submitted [x]"
    by blast
  from Cons.prems(2) s1(1) have "mallocs_free p ops m1" by simp
  from Cons.IH [OF s1(2) this] obtain outs m2 as2 where
    s2: "queue_ops p ops m1 = Some (outs, m2)" "queue m2 p as2"
      "outs @ pending m2 as2 = pending m1 as1 @ submitted ops"
    by blast
  have sub: "submitted (x # ops) = submitted [x] @ submitted ops"
    by (cases x) simp_all
  have "(out @ outs) @ pending m2 as2 = pending m as @ submitted (x # ops)"
    using s1(3) s2(3) sub by (metis append.assoc)
  with s1(1) s2(1,2) show ?case by auto
qed

text \<open>
  Claim C4. With one producer and no stop, the tasks leave the queue in the order in which
  they were submitted: after any sequence of submissions and dequeues, the calls dequeued so
  far, followed by the calls still pending in queue order, are the calls that were pending
  at the start followed by the submitted ones in the order of submission.
\<close>

theorem single_producer_fifo:
  assumes "queue m p as" and "mallocs_free p ops m"
  shows "\<exists>out m' as'. queue_ops p ops m = Some (out, m') \<and> queue m' p as'
      \<and> out @ pending m' as' = pending m as @ submitted ops"
  using assms by (rule queue_ops_fifo)

lemma fifo_example:
  "queue_ops 0 [Submit (Some 7) ''foo'' None 1, Submit (Some 8) ''bar'' None 2, Take,
                Submit (Some 9) ''baz'' None 1, Take, Take] (memory two_workers) =
     Some ([(1, Some 7, ''foo'', None), (2, Some 8, ''bar'', None), (1, Some 9, ''baz'', None)],
           \<lparr>pools = [0 \<mapsto> \<lparr>work_first = None, work_last = None, work_cond = 3,
               working_cond = 0, working_cnt = 0, thread_cnt = 2, stop = False\<rparr>],
            works = Map.empty\<rparr>)
   \<and> mallocs_free 0 [Submit (Some 7) ''foo'' None 1, Submit (Some 8) ''bar'' None 2, Take,
                Submit (Some 9) ''baz'' None 1, Take, Take] (memory two_workers)"
  by (simp add: two_workers_eq pool_add_work_def pool_work_create_def tpool_work_get_def
      pool_work_destroy_def task_def numeral_3_eq_3)

theorem single_producer_fifo_witness:
  "queue (memory two_workers) 0 []
   \<and> mallocs_free 0 [Submit (Some 7) ''foo'' None 1, Submit (Some 8) ''bar'' None 2, Take,
                Submit (Some 9) ''baz'' None 1, Take, Take] (memory two_workers)
   \<and> (\<exists>out m' as'. queue_ops 0 [Submit (Some 7) ''foo'' None 1, Submit (Some 8) ''bar'' None 2, Take,
                Submit (Some 9) ''baz'' None 1, Take, Take] (memory two_workers) = Some (out, m')
        \<and> queue m' 0 as'
        \<and> out @ pending m' as' =
            [(1, Some 7, ''foo'', None), (2, Some 8, ''bar'', None), (1, Some 9, ''baz'', None)])"
proof -
  have mf: "mallocs_free 0 [Submit (Some 7) ''foo'' None 1, Submit (Some 8) ''bar'' None 2, Take,
                Submit (Some 9) ''baz'' None 1, Take, Take] (memory two_workers)"
    using fifo_example by simp
  from single_producer_fifo [OF queue_two_workers mf] queue_two_workers mf show ?thesis
    by (simp add: pending_def)
qed

section \<open>Shutting down\<close>

lemma one_taken_eq:
  "one_taken = \<lparr>memory = \<lparr>pools = [0 \<mapsto> \<lparr>work_first = Some 2, work_last = Some 2, work_cond = Suc (Suc 0),
        working_cond = 0, working_cnt = 1, thread_cnt = 2, stop = False\<rparr>],
        works = [1 \<mapsto> \<lparr>func = Some 7, text' = ''foo'', pattern = None, next' = Some 2\<rparr>,
                 2 \<mapsto> \<lparr>func = Some 8, text' = ''bar'', pattern = None, next' = None\<rparr>]\<rparr>,
      threads = [(0, HasWork (Some 1)), (0, AtLock)], calls = []\<rparr>"
  by (simp add: one_taken_def one_pending_eq pool_add_work_def pool_work_create_def step_def
      tpool_work_get_def fun_upd_twist)

lemma nth_concat_subset:
  assumes "i < length ts"
  shows "set (f (ts ! i)) \<subseteq> set (concat (map f ts))"
proof -
  from assms have "ts ! i \<in> set ts" by simp
  then show ?thesis by auto
qed

lemma distinct_concat_nth:
  "distinct (concat (map f ts)) \<Longrightarrow> i < length ts \<Longrightarrow> j < length ts \<Longrightarrow> i \<noteq> j \<Longrightarrow>
   set (f (ts ! i)) \<inter> set (f (ts ! j)) = {}"
proof (induction ts arbitrary: i j)
  case Nil
  then show ?case by simp
next
  case (Cons t ts)
  show ?case
  proof (cases i)
    case 0
    with Cons.prems obtain j' where j: "j = Suc j'" "j' < length ts" by (cases j) auto
    then have "set (f (ts ! j')) \<subseteq> set (concat (map f ts))"
      by (simp only: nth_concat_subset)
    with Cons.prems(1) 0 j show ?thesis by auto
  next
    case (Suc i')
    show ?thesis
    proof (cases j)
      case 0
      from Suc Cons.prems have "i' < length ts" by simp
      then have "set (f (ts ! i')) \<subseteq> set (concat (map f ts))"
        by (rule nth_concat_subset)
      with Cons.prems(1) 0 Suc show ?thesis by auto
    next
      case (Suc j')
      with \<open>i = Suc i'\<close> Cons.prems Cons.IH [of i' j'] show ?thesis by auto
    qed
  qed
qed

lemma concat_map_update:
  "i < length ts \<Longrightarrow> f t' = [] \<Longrightarrow>
   concat (map f (ts[i := t'])) = concat (map f (take i ts)) @ concat (map f (drop (Suc i) ts))"
  by (simp add: upd_conv_take_nth_drop)

lemma concat_map_split:
  "i < length ts \<Longrightarrow>
   concat (map f ts) = concat (map f (take i ts)) @ f (ts ! i) @ concat (map f (drop (Suc i) ts))"
  by (subst id_take_nth_drop [of i ts]) simp_all

lemma worker_stopping:
  assumes P: "pools m p = Some P" "stop P"
    and h: "\<forall>a \<in> set (held_node (p, pc)). \<exists>W. works m a = Some W \<and> func W \<noteq> None"
  shows "\<exists>pc' m'. (tpool_worker p pc m cs = Done (pc', m', cs @ pending m (held_node (p, pc)))
                    \<or> tpool_worker p pc m cs = Blocked (pc, m, cs) \<and> pc' = pc \<and> m' = m
                        \<and> held_node (p, pc) = [])
           \<and> held_node (p, pc') = []
           \<and> (\<exists>P'. pools m' p = Some P' \<and> stop P')
           \<and> works m' = (\<lambda>x. if x \<in> set (held_node (p, pc)) then None else works m x)"
proof (cases pc)
  case AtLock
  with P show ?thesis by (simp add: pending_def)
next
  case (HasWork w)
  show ?thesis
  proof (cases w)
    case None
    with HasWork P show ?thesis by (simp add: pending_def)
  next
    case (Some a)
    with HasWork h obtain W where "works m a = Some W" "func W \<noteq> None" by auto
    with HasWork Some P show ?thesis
      by (auto simp: pending_def pool_work_destroy_def fun_upd_def)
  qed
next
  case AfterWork
  with P show ?thesis by (simp add: pending_def Let_def)
next
  case Exited
  with P show ?thesis by (simp add: pending_def)
qed

lemma held_fst: "fst ` set (held m t) \<subseteq> set (held_node t)"
  by (cases t rule: held_node.cases)
     (auto simp: held_def pending_def task_def split: option.splits)

lemma step_stopping:
  assumes st: "stopping p s" and ok: "workers_ok p [] s"
  shows "\<exists>s'. step i s = Some s' \<and> stopping p s' \<and> workers_ok p [] s'
      \<and> length (threads s') = length (threads s)
      \<and> set (taken s') \<subseteq> set (taken s)
      \<and> calls s' = calls s @ (if i < length (threads s) then held (memory s) (threads s ! i) else [])
      \<and> (i < length (threads s) \<longrightarrow> held (memory s') (threads s' ! i) = [])
      \<and> (\<forall>j. j \<noteq> i \<longrightarrow> j < length (threads s) \<longrightarrow>
            held (memory s') (threads s' ! j) = held (memory s) (threads s ! j))"
proof (cases "i < length (threads s)")
  case False
  with st ok show ?thesis by (simp add: step_def)
next
  case True
  define ts where "ts = threads s"
  define m where "m = memory s"
  define pc where "pc = snd (ts ! i)"
  define A where "A = concat (map held_node (take i ts))"
  define B where "B = concat (map held_node (drop (Suc i) ts))"
  define H where "H = held_node (p, pc)"
  from True have i: "i < length ts" by (simp add: ts_def)
  from ok have all_p: "list_all (\<lambda>t. fst t = p) ts" and dist: "distinct (concat (map held_node ts))"
    and alloc0: "\<forall>a \<in> set (concat (map held_node ts)).
          (case works m a of None \<Rightarrow> False | Some W \<Rightarrow> func W \<noteq> None)"
    by (simp_all add: workers_ok_def taken_def ts_def m_def list_all_iff)
  have alloc: "\<exists>W. works m a = Some W \<and> func W \<noteq> None"
    if "a \<in> set (concat (map held_node ts))" for a
  proof (cases "works m a")
    case None
    with alloc0 that show ?thesis by force
  next
    case (Some W)
    with alloc0 that show ?thesis by force
  qed
  from all_p i have fst_i: "fst (ts ! i) = p" by (simp add: list_all_length)
  then have ti: "ts ! i = (p, pc)" by (simp add: pc_def prod_eq_iff)
  have split: "concat (map held_node ts) = A @ H @ B"
    unfolding A_def B_def H_def ti [symmetric] using i by (rule concat_map_split)
  from st obtain P where P: "pools m p = Some P" "stop P"
    by (auto simp: stopping_def m_def split: option.splits)
  have hH: "\<forall>a \<in> set H. \<exists>W. works m a = Some W \<and> func W \<noteq> None"
    using alloc split by auto
  from worker_stopping [OF P, of pc "calls s"] hH [unfolded H_def]
  obtain pc' m' where w:
    "tpool_worker p pc m (calls s) = Done (pc', m', calls s @ pending m H)
       \<or> tpool_worker p pc m (calls s) = Blocked (pc, m, calls s) \<and> pc' = pc \<and> m' = m \<and> H = []"
    "held_node (p, pc') = []"
    "\<exists>P'. pools m' p = Some P' \<and> stop P'"
    "works m' = (\<lambda>x. if x \<in> set H then None else works m x)"
    unfolding H_def by blast
  define s' where "s' = (if H = [] \<and> tpool_worker p pc m (calls s) = Blocked (pc, m, calls s) then s
      else s\<lparr>memory := m', threads := ts[i := (p, pc')], calls := calls s @ pending m H\<rparr>)"
  have step: "step i s = Some s'"
    using w(1) True fst_i
    by (auto simp: step_def s'_def ts_def [symmetric] m_def [symmetric] pc_def [symmetric])
  have mem': "works (memory s') = (\<lambda>x. if x \<in> set H then None else works m x)"
    using w(4) by (auto simp: s'_def m_def)
  have pool': "\<exists>P'. pools (memory s') p = Some P' \<and> stop P'"
    using w(3) P by (auto simp: s'_def m_def)
  have thr': "threads s' = ts[i := (p, pc')] \<or> threads s' = ts \<and> H = []"
    by (auto simp: s'_def ts_def)
  have nth_i: "held_node (threads s' ! i) = []"
    using thr' i w(2) ti by (auto simp: H_def)
  have nth_j: "threads s' ! j = ts ! j" if "j \<noteq> i" for j
    using thr' that by auto
  have len': "length (threads s') = length ts"
    using thr' by auto
  have taken': "taken s' = A @ B"
  proof -
    from thr' show ?thesis
    proof
      assume "threads s' = ts[i := (p, pc')]"
      then show ?thesis
        using concat_map_update [of i ts held_node "(p, pc')"] i w(2)
        by (simp add: taken_def A_def B_def)
    next
      assume "threads s' = ts \<and> H = []"
      then show ?thesis using split by (simp add: taken_def)
    qed
  qed
  have calls': "calls s' = calls s @ held m (ts ! i)"
    by (auto simp: s'_def held_def ti H_def pending_def)
  have same: "works (memory s') a = works m a" if "a \<in> set (A @ B)" for a
  proof -
    from dist split have "distinct (A @ H @ B)" by simp
    with that have "a \<notin> set H" by auto
    then show ?thesis by (simp add: mem')
  qed
  have ok': "workers_ok p [] s'"
  proof -
    have "list_all (\<lambda>t. fst t = p) (threads s')"
      using thr' all_p by (auto simp: list_all_iff dest!: set_update_subset_insert [THEN subsetD])
    moreover have "distinct (taken s')"
      using dist split taken' by auto
    moreover have "case works (memory s') a of None \<Rightarrow> False | Some W \<Rightarrow> func W \<noteq> None"
      if "a \<in> set (taken s')" for a
    proof -
      from that taken' have a: "a \<in> set (A @ B)" by simp
      then have "a \<in> set (concat (map held_node ts))" using split by auto
      from alloc [OF this] same [OF a] show ?thesis by auto
    qed
    ultimately show ?thesis
      by (simp add: workers_ok_def list_all_iff)
  qed
  have held_i: "held (memory s') (threads s' ! i) = []"
    using nth_i by (simp add: held_def pending_def)
  have held_j: "held (memory s') (threads s' ! j) = held m (ts ! j)"
    if "j \<noteq> i" "j < length ts" for j
  proof -
    have disj: "set (held_node (ts ! i)) \<inter> set (held_node (ts ! j)) = {}"
      using dist i that by (intro distinct_concat_nth) auto
    have "pending (memory s') (held_node (ts ! j)) = pending m (held_node (ts ! j))"
    proof (rule pending_cong)
      fix b assume "b \<in> set (held_node (ts ! j))"
      with disj have "b \<notin> set H" by (auto simp: H_def ti)
      then show "map_option (task b) (works (memory s') b) = map_option (task b) (works m b)"
        by (simp add: mem')
    qed
    with nth_j [OF that(1)] show ?thesis by (simp add: held_def)
  qed
  have "stopping p s'"
    using pool' by (auto simp: stopping_def)
  moreover have "set (taken s') \<subseteq> set (taken s)"
    using taken' split by (auto simp: taken_def ts_def)
  ultimately show ?thesis
    using step ok' len' calls' held_i held_j True
    by (auto simp: ts_def m_def)
qed

lemma run_stopping:
  "stopping p s \<Longrightarrow> workers_ok p [] s \<Longrightarrow>
   \<exists>s2 new. run sched s = Some s2 \<and> stopping p s2 \<and> calls s2 = calls s @ new
      \<and> fst ` set new \<subseteq> set (taken s)
      \<and> mset new = (\<Sum>i \<in> set sched \<inter> {..<length (threads s)}. mset (held (memory s) (threads s ! i)))"
proof (induction sched arbitrary: s)
  case Nil
  then show ?case by simp
next
  case (Cons i sched)
  define n where "n = length (threads s)"
  define f where "f j = mset (held (memory s) (threads s ! j))" for j
  define A where "A = set sched \<inter> {..<n}"
  from step_stopping [OF Cons.prems, of i] obtain s' where s':
    "step i s = Some s'" "stopping p s'" "workers_ok p [] s'"
    "length (threads s') = n" "set (taken s') \<subseteq> set (taken s)"
    "calls s' = calls s @ (if i < n then held (memory s) (threads s ! i) else [])"
    "i < n \<longrightarrow> held (memory s') (threads s' ! i) = []"
    "\<forall>j. j \<noteq> i \<longrightarrow> j < n \<longrightarrow> held (memory s') (threads s' ! j) = held (memory s) (threads s ! j)"
    unfolding n_def by blast
  define f' where "f' j = mset (held (memory s') (threads s' ! j))" for j
  from Cons.IH [OF s'(2,3)] s'(4) obtain s2 new' where s2:
    "run sched s' = Some s2" "stopping p s2" "calls s2 = calls s' @ new'"
    "fst ` set new' \<subseteq> set (taken s')" "mset new' = sum f' A"
    unfolding f'_def A_def by auto
  define hi where "hi = (if i < n then held (memory s) (threads s ! i) else [])"
  have fin: "finite A" by (simp add: A_def)
  have rest: "sum f' A = sum f (A - {i})"
  proof -
    have "sum f' A = sum f' (A - {i})"
    proof (rule sum.mono_neutral_right [OF fin])
      show "A - {i} \<subseteq> A" by auto
      show "\<forall>j \<in> A - (A - {i}). f' j = 0"
        using s'(7) by (auto simp: f'_def A_def)
    qed
    also have "\<dots> = sum f (A - {i})"
      by (rule sum.cong) (use s'(8) in \<open>auto simp: f'_def f_def A_def\<close>)
    finally show ?thesis .
  qed
  have total: "mset (hi @ new') = sum f (set (i # sched) \<inter> {..<n})"
  proof (cases "i < n")
    case True
    then have "set (i # sched) \<inter> {..<n} = insert i A" by (auto simp: A_def)
    moreover have "sum f (insert i A) = f i + sum f (A - {i})"
      using fin by (rule sum.insert_remove)
    ultimately show ?thesis
      using True s2(5) rest by (simp add: hi_def f_def)
  next
    case False
    then have "set (i # sched) \<inter> {..<n} = A" "A - {i} = A" by (auto simp: A_def)
    with False s2(5) rest show ?thesis by (simp add: hi_def)
  qed
  have "fst ` set hi \<subseteq> set (taken s)"
  proof (cases "i < n")
    case True
    then have "set (held_node (threads s ! i)) \<subseteq> set (taken s)"
      unfolding taken_def n_def by (rule nth_concat_subset)
    with held_fst [of "memory s" "threads s ! i"] True show ?thesis
      by (auto simp: hi_def)
  next
    case False
    then show ?thesis by (simp add: hi_def)
  qed
  with s2(4) s'(5) have "fst ` set (hi @ new') \<subseteq> set (taken s)" by auto
  moreover have "calls s2 = calls s @ hi @ new'"
    using s2(3) s'(6) by (simp add: hi_def)
  moreover have "run (i # sched) s = Some s2"
    using s'(1) s2(1) by simp
  ultimately show ?case
    using s2(2) total unfolding f_def n_def by blast
qed

lemma sweep_keeps_workers:
  assumes q: "queue (memory s) p as" and ok: "workers_ok p as s"
  shows "\<exists>m1. pool_destroy_sweep p (memory s) = Some m1
     \<and> (\<forall>a \<in> set as. works m1 a = None)
     \<and> map_option stop (pools m1 p) = Some True
     \<and> stopping p (s\<lparr>memory := m1\<rparr>) \<and> workers_ok p [] (s\<lparr>memory := m1\<rparr>)
     \<and> set (taken s) \<inter> set as = {}
     \<and> (\<forall>i < length (threads s). held m1 (threads s ! i) = held (memory s) (threads s ! i))"
proof -
  define m where "m = memory s"
  from sweep_queue [OF q] obtain P where P: "pools m p = Some P"
    and sw: "pool_destroy_sweep p m =
      Some (m\<lparr>works := (\<lambda>x. if x \<in> set as then None else works m x),
              pools := (pools m)(p \<mapsto> P\<lparr>stop := True, work_cond := work_cond P + 1\<rparr>)\<rparr>)"
    unfolding m_def by blast
  define m1 where "m1 = m\<lparr>works := (\<lambda>x. if x \<in> set as then None else works m x),
              pools := (pools m)(p \<mapsto> P\<lparr>stop := True, work_cond := work_cond P + 1\<rparr>)\<rparr>"
  from ok have disj: "set (taken s) \<inter> set as = {}"
    by (auto simp: workers_ok_def list_all_iff)
  have same: "works m1 a = works m a" if "a \<in> set (taken s)" for a
    using that disj by (auto simp: m1_def)
  have "workers_ok p [] (s\<lparr>memory := m1\<rparr>)"
    using ok same by (simp add: workers_ok_def list_all_iff taken_def m_def)
  moreover have "stopping p (s\<lparr>memory := m1\<rparr>)"
    by (simp add: stopping_def m1_def)
  moreover have "held m1 (threads s ! i) = held m (threads s ! i)" if "i < length (threads s)" for i
  proof -
    from that have sub: "set (held_node (threads s ! i)) \<subseteq> set (taken s)"
      unfolding taken_def by (rule nth_concat_subset)
    have "pending m1 (held_node (threads s ! i)) = pending m (held_node (threads s ! i))"
      by (rule pending_cong) (use sub same in auto)
    then show ?thesis by (simp add: held_def)
  qed
  ultimately show ?thesis
    using sw disj unfolding m1_def [symmetric] m_def [symmetric]
    by (simp add: m1_def)
qed

text \<open>
  Claim C5. On a pool whose queue holds the nodes \<open>as\<close>, with some tasks in the hands of
  workers, the sweep of \<open>pool_destroy\<close> returns, has freed every node of \<open>as\<close> and has set
  \<open>stop\<close>. Whatever the workers do afterwards, in any order, they do not fail, and the calls
  they add to the log are exactly the calls of the tasks that were in the hands of the workers
  that get to run: a task dequeued before the sweep is run by its worker, and no call is made
  on a swept node.
\<close>

theorem pool_destroy_discards_pending:
  assumes q: "queue (memory s) p as" and ok: "workers_ok p as s"
  shows "\<exists>m1. pool_destroy_sweep p (memory s) = Some m1
     \<and> (\<forall>a \<in> set as. works m1 a = None)
     \<and> map_option stop (pools m1 p) = Some True
     \<and> (\<forall>sched. \<exists>s2 new. run sched (s\<lparr>memory := m1\<rparr>) = Some s2 \<and> calls s2 = calls s @ new
          \<and> fst ` set new \<inter> set as = {}
          \<and> mset new = (\<Sum>i \<in> set sched \<inter> {..<length (threads s)}.
                           mset (held (memory s) (threads s ! i))))"
proof -
  from sweep_keeps_workers [OF q ok] obtain m1 where m1:
    "pool_destroy_sweep p (memory s) = Some m1" "\<forall>a \<in> set as. works m1 a = None"
    "map_option stop (pools m1 p) = Some True"
    "stopping p (s\<lparr>memory := m1\<rparr>)" "workers_ok p [] (s\<lparr>memory := m1\<rparr>)"
    "set (taken s) \<inter> set as = {}"
    "\<forall>i < length (threads s). held m1 (threads s ! i) = held (memory s) (threads s ! i)"
    by blast
  have "\<exists>s2 new. run sched (s\<lparr>memory := m1\<rparr>) = Some s2 \<and> calls s2 = calls s @ new
          \<and> fst ` set new \<inter> set as = {}
          \<and> mset new = (\<Sum>i \<in> set sched \<inter> {..<length (threads s)}.
                           mset (held (memory s) (threads s ! i)))" for sched
  proof -
    from run_stopping [OF m1(4,5), of sched] obtain s2 new where r:
      "run sched (s\<lparr>memory := m1\<rparr>) = Some s2" "calls s2 = calls s @ new"
      "fst ` set new \<subseteq> set (taken s)"
      "mset new = (\<Sum>i \<in> set sched \<inter> {..<length (threads s)}. mset (held m1 (threads s ! i)))"
      by (auto simp: taken_def)
    have "(\<Sum>i \<in> set sched \<inter> {..<length (threads s)}. mset (held m1 (threads s ! i))) =
          (\<Sum>i \<in> set sched \<inter> {..<length (threads s)}. mset (held (memory s) (threads s ! i)))"
      by (rule sum.cong) (use m1(7) in auto)
    with r m1(6) show ?thesis by (intro exI [of _ s2] exI [of _ new]) auto
  qed
  with m1(1,2,3) show ?thesis by blast
qed

lemma queue_one_taken: "queue (memory one_taken) 0 [2]"
  by (simp add: one_taken_eq queue_def)

lemma workers_ok_one_taken: "workers_ok 0 [2] one_taken"
  by (simp add: one_taken_eq workers_ok_def taken_def)

theorem pool_destroy_discards_pending_witness:
  "queue (memory one_taken) 0 [2] \<and> workers_ok 0 [2] one_taken
   \<and> (\<exists>m1. pool_destroy_sweep 0 (memory one_taken) = Some m1
     \<and> works m1 2 = None
     \<and> map_option stop (pools m1 0) = Some True
     \<and> (\<exists>s2 new. run [1, 0, 0, 1] (one_taken\<lparr>memory := m1\<rparr>) = Some s2 \<and> calls s2 = new
          \<and> fst ` set new \<inter> {2} = {}
          \<and> mset new = {#(1, Some 7, ''foo'', None)#}))"
proof -
  have s: "set [1, 0, 0, 1] \<inter> {..<length (threads one_taken)} = {0, 1::nat}"
    by (auto simp: one_taken_eq)
  from pool_destroy_discards_pending [OF queue_one_taken workers_ok_one_taken]
  obtain m1 where m1: "pool_destroy_sweep 0 (memory one_taken) = Some m1"
    "\<forall>a \<in> set [2]. works m1 a = None" "map_option stop (pools m1 0) = Some True"
    "\<forall>sched. \<exists>s2 new. run sched (one_taken\<lparr>memory := m1\<rparr>) = Some s2
        \<and> calls s2 = calls one_taken @ new \<and> fst ` set new \<inter> set [2] = {}
        \<and> mset new = (\<Sum>i \<in> set sched \<inter> {..<length (threads one_taken)}.
                         mset (held (memory one_taken) (threads one_taken ! i)))"
    by blast
  from m1(4) [rule_format, of "[1, 0, 0, 1]"] obtain s2 new where r:
    "run [1, 0, 0, 1] (one_taken\<lparr>memory := m1\<rparr>) = Some s2" "calls s2 = calls one_taken @ new"
    "fst ` set new \<inter> set [2] = {}"
    "mset new = (\<Sum>i \<in> {0, 1::nat}. mset (held (memory one_taken) (threads one_taken ! i)))"
    unfolding s by blast
  have "(\<Sum>i \<in> {0, 1::nat}. mset (held (memory one_taken) (threads one_taken ! i))) =
        {#(1, Some 7, ''foo'', None)#}"
    by (simp add: one_taken_eq held_def pending_def task_def)
  with r m1(1,2,3) queue_one_taken workers_ok_one_taken show ?thesis
    by (auto simp: one_taken_eq)
qed

subsection \<open>A shut-down, computed\<close>

text \<open>
  \<open>pool_destroy\<close> on \<open>one_taken\<close> sweeps the task at address 2 and sleeps in \<open>pool_wait\<close>.
  When the workers have run, the task at address 1 has been called, both workers have
  returned, and the rest of \<open>pool_destroy\<close> releases the pool: nothing stays allocated.
\<close>

lemma shutdown_example:
  "pool_destroy (Some 0) (memory one_taken) =
     Blocked \<lparr>pools = [0 \<mapsto> \<lparr>work_first = Some 2, work_last = Some 2, work_cond = 3,
          working_cond = 0, working_cnt = 1, thread_cnt = 2, stop = True\<rparr>],
        works = [1 \<mapsto> \<lparr>func = Some 7, text' = ''foo'', pattern = None, next' = Some 2\<rparr>]\<rparr>"
proof -
  from sweep_queue [OF queue_one_taken] show ?thesis
    by (auto simp: pool_destroy_def pool_destroy_join_def pool_wait_def one_taken_eq
        numeral_3_eq_3 fun_upd_def)
qed

lemma shutdown_example_run:
  "map_option (\<lambda>s. (calls s, threads s, pool_destroy_join 0 (memory s)))
     (run [1, 0, 0, 0] (one_taken\<lparr>memory := the (pool_destroy_sweep 0 (memory one_taken))\<rparr>)) =
   Some ([(1, Some 7, ''foo'', None)], [(0, Exited), (0, Exited)],
         Done \<lparr>pools = Map.empty, works = Map.empty\<rparr>)"
proof -
  from sweep_queue [OF queue_one_taken] show ?thesis
    by (auto simp: one_taken_eq step_def pool_work_destroy_def task_def
        pool_destroy_join_def pool_wait_def Let_def fun_upd_def)
qed

section \<open>The running pool keeps its form\<close>

text \<open>
  The hypotheses of the theorems above hold in every state that the program reaches before
  \<open>pool_destroy\<close>: they hold after \<open>pool_create\<close>, and a submission and a step of a worker
  keep them.
\<close>

lemma concat_map_update_gen:
  "i < length ts \<Longrightarrow>
   concat (map f (ts[i := t'])) =
     concat (map f (take i ts)) @ f t' @ concat (map f (drop (Suc i) ts))"
  by (simp add: upd_conv_take_nth_drop)

lemma queue_counters:
  "queue m p as \<Longrightarrow> pools m p = Some P \<Longrightarrow> work_first P' = work_first P \<Longrightarrow>
   work_last P' = work_last P \<Longrightarrow> queue (m\<lparr>pools := (pools m)(p \<mapsto> P')\<rparr>) p as"
  by (simp add: queue_def)

lemma pool_create_well_formed:
  assumes "threads s = []"
  shows "queue (memory (snd (pool_create num p s))) p []
     \<and> workers_ok p [] (snd (pool_create num p s))
     \<and> \<not> stopping p (snd (pool_create num p s))"
  using assms
  by (simp add: pool_create_def queue_def workers_ok_def taken_def stopping_def list_all_iff)

lemma submit_well_formed:
  assumes q: "queue (memory s) p as" and ok: "workers_ok p as s"
    and fs: "funcs_set (memory s) as" and fr: "works (memory s) a = None"
  shows "\<exists>r m' as'. pool_add_work (Some p) f t pat a (memory s) = Some (r, m')
     \<and> queue m' p as' \<and> workers_ok p as' (s\<lparr>memory := m'\<rparr>) \<and> funcs_set m' as'
     \<and> stopping p (s\<lparr>memory := m'\<rparr>) = stopping p s"
proof (cases "f = None")
  case True
  then have "pool_add_work (Some p) f t pat a (memory s) = Some (False, memory s)"
    by (simp add: pool_add_work_def pool_work_create_def)
  with q ok fs show ?thesis by auto
next
  case False
  define m where "m = memory s"
  from add_work_queue [OF q fr False, of t pat] obtain m' where m':
    "pool_add_work (Some p) f t pat a m = Some (True, m')" "queue m' p (as @ [a])"
    "works m' a = Some \<lparr>func = f, text' = t, pattern = pat, next' = None\<rparr>"
    "\<forall>b. b \<notin> set as \<longrightarrow> b \<noteq> a \<longrightarrow> works m' b = works m b"
    "\<forall>b \<in> set as. map_option (task b) (works m' b) = map_option (task b) (works m b)"
    "\<exists>P P'. pools m p = Some P \<and> pools m' p = Some P' \<and> stop P' = stop P"
    unfolding m_def by blast
  from ok have tk: "\<forall>b \<in> set (taken s). b \<notin> set as
      \<and> (case works m b of None \<Rightarrow> False | Some W \<Rightarrow> func W \<noteq> None)"
    by (simp add: workers_ok_def list_all_iff m_def)
  have na: "b \<noteq> a" if "b \<in> set (taken s)" for b
    using tk that fr by (auto simp: m_def split: option.splits)
  have "b \<notin> set (as @ [a])
      \<and> (case works m' b of None \<Rightarrow> False | Some W \<Rightarrow> func W \<noteq> None)"
    if "b \<in> set (taken s)" for b
  proof -
    from tk that have b: "b \<notin> set as"
      "case works m b of None \<Rightarrow> False | Some W \<Rightarrow> func W \<noteq> None"
      by simp_all
    from na [OF that] b(1) m'(4) have "works m' b = works m b" by simp
    with b na [OF that] show ?thesis by simp
  qed
  then have "workers_ok p (as @ [a]) (s\<lparr>memory := m'\<rparr>)"
    using ok by (simp add: workers_ok_def list_all_iff taken_def)
  moreover have "funcs_set m' (as @ [a])"
  proof -
    have "case works m' b of None \<Rightarrow> False | Some W \<Rightarrow> func W \<noteq> None" if "b \<in> set as" for b
    proof -
      from fs that have "case works m b of None \<Rightarrow> False | Some W \<Rightarrow> func W \<noteq> None"
        by (simp add: funcs_set_def list_all_iff m_def)
      moreover from m'(5) that
      have "map_option (task b) (works m' b) = map_option (task b) (works m b)" by simp
      ultimately show ?thesis
        by (cases "works m b"; cases "works m' b") (auto simp: task_def)
    qed
    with m'(3) False show ?thesis by (simp add: funcs_set_def list_all_iff)
  qed
  moreover have "stopping p (s\<lparr>memory := m'\<rparr>) = stopping p s"
    using m'(6) by (auto simp: stopping_def m_def)
  ultimately show ?thesis
    using m'(1,2) unfolding m_def by blast
qed

lemma worker_well_formed:
  assumes q: "queue (memory s) p as" and ok: "workers_ok p as s"
    and fs: "funcs_set (memory s) as" and run: "\<not> stopping p s"
  shows "\<exists>s' as'. step i s = Some s' \<and> queue (memory s') p as' \<and> workers_ok p as' s'
     \<and> funcs_set (memory s') as' \<and> \<not> stopping p s'"
proof (cases "i < length (threads s)")
  case False
  with assms show ?thesis by (auto simp: step_def)
next
  case True
  define ts where "ts = threads s"
  define m where "m = memory s"
  define pc where "pc = snd (ts ! i)"
  define A where "A = concat (map held_node (take i ts))"
  define B where "B = concat (map held_node (drop (Suc i) ts))"
  from True have i: "i < length ts" by (simp add: ts_def)
  from ok have all_p: "list_all (\<lambda>t. fst t = p) ts" and dist: "distinct (concat (map held_node ts))"
    and tk: "\<forall>b \<in> set (concat (map held_node ts)). b \<notin> set as
          \<and> (case works m b of None \<Rightarrow> False | Some W \<Rightarrow> func W \<noteq> None)"
    by (simp_all add: workers_ok_def taken_def ts_def m_def list_all_iff)
  from all_p i have fst_i: "fst (ts ! i) = p" by (simp add: list_all_length)
  then have ti: "ts ! i = (p, pc)" by (simp add: pc_def prod_eq_iff)
  have split: "concat (map held_node ts) = A @ held_node (p, pc) @ B"
    unfolding A_def B_def ti [symmetric] using i
    by (subst id_take_nth_drop [of i ts]) simp_all
  have upd: "concat (map held_node (ts[i := (p, pc')])) = A @ held_node (p, pc') @ B" for pc'
    unfolding A_def B_def using i by (rule concat_map_update_gen)
  have all_p': "list_all (\<lambda>t. fst t = p) (ts[i := (p, pc')])" for pc'
    using all_p by (auto simp: list_all_iff dest!: set_update_subset_insert [THEN subsetD])
  from q obtain P where P: "pools m p = Some P"
    by (auto simp: queue_def m_def split: option.splits)
  with run have ns: "\<not> stop P" by (simp add: stopping_def m_def)
  from q have das: "distinct as" by (auto simp: queue_def split: option.splits)
  have qm: "queue m p as" using q by (simp add: m_def)
  have fsm: "funcs_set m as" using fs by (simp add: m_def)
  have stepI: "step i s = Some (s\<lparr>memory := m', threads := ts[i := (p, pc')], calls := cs\<rparr>)"
    if "tpool_worker p pc m (calls s) = Done (pc', m', cs)" for pc' m' cs
    using that True fst_i
    by (simp add: step_def ts_def [symmetric] m_def [symmetric] pc_def [symmetric])
  show ?thesis
  proof (cases pc)
    case AtLock
    show ?thesis
    proof (cases as)
      case Nil
      with qm P have "work_first P = None" by (simp add: queue_def)
      with P ns AtLock have "tpool_worker p pc m (calls s) = Blocked (AtLock, m, calls s)"
        by simp
      with True fst_i have "step i s = Some s"
        by (simp add: step_def ts_def [symmetric] m_def [symmetric] pc_def [symmetric])
      with assms show ?thesis by auto
    next
      case (Cons a as')
      with qm P have nf: "work_first P \<noteq> None" by (auto simp: queue_def)
      from work_get_queue_Cons [of m p a as'] qm Cons obtain m1 P1 where m1:
        "tpool_work_get (Some p) m = Some (Some a, m1)" "queue m1 p as'" "works m1 = works m"
        "pools m1 p = Some P1" "P1\<lparr>work_first := work_first P, work_last := work_last P\<rparr> = P"
        using P by auto
      from m1(5) have st1: "stop P1 = stop P"
        by (metis pool_t.select_convs(7) pool_t.surjective pool_t.update_convs(1,2))
      define m2 where "m2 = m1\<lparr>pools := (pools m1)(p \<mapsto> P1\<lparr>working_cnt := working_cnt P1 + 1\<rparr>)\<rparr>"
      have w: "tpool_worker p pc m (calls s) = Done (HasWork (Some a), m2, calls s)"
        using AtLock P ns nf m1 by (simp add: m2_def)
      have q2: "queue m2 p as'"
        unfolding m2_def using m1(2,4) by (rule queue_counters) simp_all
      have w2: "works m2 = works m" by (simp add: m2_def m1(3))
      from AtLock split have AB: "concat (map held_node ts) = A @ B" by simp
      from das Cons have a_as': "a \<notin> set as'" by simp
      from tk AB Cons have a_AB: "a \<notin> set (A @ B)" by auto
      have "workers_ok p as' (s\<lparr>memory := m2, threads := ts[i := (p, HasWork (Some a))],
              calls := calls s\<rparr>)"
      proof -
        have "distinct (A @ [a] @ B)" using dist AB a_AB by auto
        moreover have "b \<notin> set as' \<and> (case works m b of None \<Rightarrow> False | Some W \<Rightarrow> func W \<noteq> None)"
          if "b \<in> set (A @ [a] @ B)" for b
        proof (cases "b = a")
          case True
          from fsm Cons have "case works m a of None \<Rightarrow> False | Some W \<Rightarrow> func W \<noteq> None"
            by (simp add: funcs_set_def)
          with True a_as' show ?thesis by simp
        next
          case False
          with that have "b \<in> set (A @ B)" by auto
          with tk AB Cons show ?thesis by auto
        qed
        ultimately show ?thesis
          using all_p' [of "HasWork (Some a)"] upd [of "HasWork (Some a)"]
          by (simp add: workers_ok_def taken_def list_all_iff w2)
      qed
      moreover have "funcs_set m2 as'"
        using fsm Cons by (simp add: funcs_set_def w2)
      moreover have "\<not> stopping p (s\<lparr>memory := m2, threads := ts[i := (p, HasWork (Some a))],
              calls := calls s\<rparr>)"
        using ns st1 by (simp add: stopping_def m2_def)
      ultimately show ?thesis
        using stepI [OF w] q2 by (intro exI [of _ as'] exI) auto
    qed
  next
    case (HasWork wk)
    show ?thesis
    proof (cases wk)
      case None
      with HasWork have w: "tpool_worker p pc m (calls s) = Done (AfterWork, m, calls s)"
        by simp
      from HasWork None split have AB: "concat (map held_node ts) = A @ B" by simp
      have "workers_ok p as (s\<lparr>memory := m, threads := ts[i := (p, AfterWork)], calls := calls s\<rparr>)"
        using all_p' [of AfterWork] upd [of AfterWork] dist tk AB
        by (simp add: workers_ok_def taken_def list_all_iff)
      moreover have "\<not> stopping p (s\<lparr>memory := m, threads := ts[i := (p, AfterWork)],
              calls := calls s\<rparr>)"
        using P ns by (simp add: stopping_def)
      ultimately show ?thesis
        using stepI [OF w] qm fsm by (intro exI [of _ as] exI) auto
    next
      case (Some a)
      with HasWork split have AaB: "concat (map held_node ts) = A @ [a] @ B" by simp
      with tk obtain W where W: "works m a = Some W" "func W \<noteq> None" and a_as: "a \<notin> set as"
        by (cases "works m a") auto
      define m1 where "m1 = m\<lparr>works := (works m)(a := None)\<rparr>"
      have w: "tpool_worker p pc m (calls s) = Done (AfterWork, m1, calls s @ [task a W])"
        using HasWork Some W by (simp add: pool_work_destroy_def m1_def)
      have q1: "queue m1 p as"
        unfolding m1_def using qm a_as by (rule queue_free_head)
      from dist AaB have a_AB: "a \<notin> set (A @ B)" and dAB: "distinct (A @ B)" by auto
      have "workers_ok p as (s\<lparr>memory := m1, threads := ts[i := (p, AfterWork)],
              calls := calls s @ [task a W]\<rparr>)"
      proof -
        have "b \<notin> set as \<and> (case works m1 b of None \<Rightarrow> False | Some W \<Rightarrow> func W \<noteq> None)"
          if "b \<in> set (A @ B)" for b
        proof -
          from that a_AB have "b \<noteq> a" by auto
          moreover from that tk AaB
          have "b \<notin> set as \<and> (case works m b of None \<Rightarrow> False | Some W \<Rightarrow> func W \<noteq> None)"
            by auto
          ultimately show ?thesis by (simp add: m1_def)
        qed
        with dAB show ?thesis
          using all_p' [of AfterWork] upd [of AfterWork]
          by (simp add: workers_ok_def taken_def list_all_iff)
      qed
      moreover have "funcs_set m1 as"
        using fsm a_as by (auto simp: funcs_set_def list_all_iff m1_def)
      moreover have "\<not> stopping p (s\<lparr>memory := m1, threads := ts[i := (p, AfterWork)],
              calls := calls s @ [task a W]\<rparr>)"
        using P ns by (simp add: stopping_def m1_def)
      ultimately show ?thesis
        using stepI [OF w] q1 by (intro exI [of _ as] exI) auto
    qed
  next
    case AfterWork
    define P2 where "P2 = (if working_cnt P - 1 = 0 \<and> work_first P = None
        then P\<lparr>working_cnt := working_cnt P - 1, working_cond := working_cond P + 1\<rparr>
        else P\<lparr>working_cnt := working_cnt P - 1\<rparr>)"
    define m1 where "m1 = m\<lparr>pools := (pools m)(p \<mapsto> P2)\<rparr>"
    have w: "tpool_worker p pc m (calls s) = Done (AtLock, m1, calls s)"
      using AfterWork P ns by (simp add: Let_def m1_def P2_def)
    have q1: "queue m1 p as"
      unfolding m1_def using qm P by (rule queue_counters) (simp_all add: P2_def)
    have w1: "works m1 = works m" by (simp add: m1_def)
    from AfterWork split have AB: "concat (map held_node ts) = A @ B" by simp
    have "workers_ok p as (s\<lparr>memory := m1, threads := ts[i := (p, AtLock)], calls := calls s\<rparr>)"
      using all_p' [of AtLock] upd [of AtLock] dist tk AB
      by (simp add: workers_ok_def taken_def list_all_iff w1)
    moreover have "funcs_set m1 as"
      using fsm by (simp add: funcs_set_def w1)
    moreover have "\<not> stopping p (s\<lparr>memory := m1, threads := ts[i := (p, AtLock)],
              calls := calls s\<rparr>)"
      using ns by (simp add: stopping_def m1_def P2_def)
    ultimately show ?thesis
      using stepI [OF w] q1 by (intro exI [of _ as] exI) auto
  next
    case Exited
    then have "tpool_worker p pc m (calls s) = Blocked (Exited, m, calls s)" by simp
    with True fst_i have "step i s = Some s"
      by (simp add: step_def ts_def [symmetric] m_def [symmetric] pc_def [symmetric])
    with assms show ?thesis by auto
  qed
qed

end
